theory Spec2Isabelle
  imports Main "HOL-Library.Multiset" "HOL-Library.AList" "HOL-Library.Char_ord" "HOL-Library.List_Lexorder" "HOL-Library.Sublist"
begin

section \<open>Data model\<close>

text \<open>
  The program passes Python dicts around. A filter value is the dict
  \<^verbatim>\<open>{"id": ..., "name": ...}\<close>; a search configuration is the dict built by
  \<^verbatim>\<open>_finalize_and_save\<close> (handlers.py) and \<^verbatim>\<open>_load_searches_for_user\<close>
  (state_sqlite.py), or the legacy dict of the JSON state (state.py), which has only
  \<^verbatim>\<open>text\<close>, \<^verbatim>\<open>categoria\<close>, \<^verbatim>\<open>regione\<close>, \<^verbatim>\<open>settore\<close>.
  A key read with \<^verbatim>\<open>.get(k, [])\<close> is a list (absent = empty); a key read with
  \<^verbatim>\<open>.get(k)\<close> is an option (absent or None = \<open>None\<close>). The key \<^verbatim>\<open>text\<close> is
  present in every search dict the program builds and is a plain string here.
\<close>

record filter_value =
  fv_id :: string
  fv_name :: string

record search_cfg =
  s_id :: "string option"
  s_text :: string
  s_label :: "string option"
  categorie :: "filter_value list"
  regioni :: "filter_value list"
  settori :: "filter_value list"
  categoria :: "filter_value option"

text \<open>The request body of inpa.py's \<^verbatim>\<open>build_payload\<close>; the constant fields
  \<^verbatim>\<open>status = ["OPEN"]\<close> and \<^verbatim>\<open>provinciaCodice = None\<close> are the same in every payload.\<close>

record payload =
  p_text :: string
  categoriaId :: string
  regioneId :: "string option"
  settoreId :: "string option"

definition build_payload :: "string \<Rightarrow> string \<Rightarrow> string option \<Rightarrow> string option \<Rightarrow> payload" where
  "build_payload txt categoria_id regione_id settore_id =
     \<lparr>p_text = txt, categoriaId = categoria_id, regioneId = regione_id, settoreId = settore_id\<rparr>"

section \<open>Query expansion\<close>

text \<open>\<^verbatim>\<open>regs or [None]\<close>: an empty list is replaced by the one-element list \<open>[None]\<close>.\<close>

definition or_none :: "'a list \<Rightarrow> 'a option list" where
  "or_none xs = (if xs = [] then [None] else map Some xs)"

text \<open>\<^verbatim>\<open>[c for c in cats if c]\<close>: the entries that are None are dropped.\<close>

fun drop_none :: "'a option list \<Rightarrow> 'a list" where
  "drop_none [] = []"
| "drop_none (None # xs) = drop_none xs"
| "drop_none (Some x # xs) = x # drop_none xs"

text \<open>poll.py, \<^verbatim>\<open>_iter_payloads\<close>. The category list falls back to the legacy single
  \<^verbatim>\<open>categoria\<close> when \<^verbatim>\<open>categorie\<close> is empty; \<^verbatim>\<open>itertools.product\<close> varies its last
  argument fastest.\<close>

definition iter_payloads :: "search_cfg \<Rightarrow> payload list" where
  "iter_payloads cfg =
     (let cats0 = (if categorie cfg \<noteq> [] then map Some (categorie cfg) else [categoria cfg]);
          cats = drop_none cats0;
          regs_iter = or_none (regioni cfg);
          sets_iter = or_none (settori cfg)
      in concat (map (\<lambda>cat. concat (map (\<lambda>reg. map (\<lambda>sett.
           build_payload (s_text cfg) (fv_id cat) (map_option fv_id reg) (map_option fv_id sett))
           sets_iter) regs_iter)) cats))"

text \<open>handlers.py, \<^verbatim>\<open>_build_payloads_from_search\<close>: the same product, where an empty
  category list becomes \<open>[None]\<close> and the combinations with no category are skipped.\<close>

definition build_payloads_from_search :: "search_cfg \<Rightarrow> payload list" where
  "build_payloads_from_search s =
     (let cats_iter = or_none (categorie s);
          regs_iter = or_none (regioni s);
          sets_iter = or_none (settori s)
      in concat (map (\<lambda>cat. concat (map (\<lambda>reg. concat (map (\<lambda>sett.
           (case cat of None \<Rightarrow> []
            | Some c \<Rightarrow> [build_payload (s_text s) (fv_id c) (map_option fv_id reg) (map_option fv_id sett)]))
           sets_iter)) regs_iter)) cats_iter))"

text \<open>\<^verbatim>\<open>_first_or_none\<close> (handlers.py); the stored searches carry
  \<^verbatim>\<open>categoria = _first_or_none(categorie)\<close>.\<close>

definition first_or_none :: "'a list \<Rightarrow> 'a option" where
  "first_or_none items = (case items of [] \<Rightarrow> None | x # _ \<Rightarrow> Some x)"

text \<open>A SavedSearch is a search dict as \<^verbatim>\<open>_finalize_and_save\<close> and
  \<^verbatim>\<open>_load_searches_for_user\<close> build it: the legacy single field mirrors the list.\<close>

definition saved_search :: "search_cfg \<Rightarrow> bool" where
  "saved_search cfg \<longleftrightarrow> categoria cfg = first_or_none (categorie cfg)"

section \<open>Catalog items and the aggregation loop\<close>

text \<open>
  A JSON field that is expected to hold a string: the key can be missing
  (\<open>Absent\<close>), hold \<^verbatim>\<open>null\<close> (\<open>Null\<close>, Python's None) or hold a string.
  An item of the catalog response is inspected only through \<^verbatim>\<open>id\<close> and
  \<^verbatim>\<open>dataPubblicazione\<close>; the remaining display fields are carried along unchanged.
\<close>

datatype jstr = Absent | Null | Str string

record item =
  item_id :: jstr
  dataPubblicazione :: jstr
  display :: string

datatype error = TypeError | KeyError | IntegrityError

text \<open>\<^verbatim>\<open>it.get("id")\<close>: None when the key is missing or null.\<close>

definition get_id :: "item \<Rightarrow> string option" where
  "get_id it = (case item_id it of Str s \<Rightarrow> Some s | Null \<Rightarrow> None | Absent \<Rightarrow> None)"

text \<open>inpa.py's \<^verbatim>\<open>search\<close> as the poller sees it: \<open>None\<close> when the call raises,
  otherwise the list \<^verbatim>\<open>data.get("content", [])\<close>.\<close>

type_synonym catalog = "payload \<Rightarrow> item list option"

text \<open>The inner loop of \<^verbatim>\<open>_process_one_search\<close> over one response
  (poll.py, lines 122 to 126).\<close>

fun merge_content :: "item list \<Rightarrow> item list \<times> string set \<Rightarrow> item list \<times> string set" where
  "merge_content [] (merged, merge_ids) = (merged, merge_ids)"
| "merge_content (it # its) (merged, merge_ids) =
     (case get_id it of
        None \<Rightarrow> merge_content its (merged, merge_ids)
      | Some iid \<Rightarrow>
          if iid \<noteq> [] \<and> iid \<notin> merge_ids
          then merge_content its (merged @ [it], insert iid merge_ids)
          else merge_content its (merged, merge_ids))"

text \<open>The loop over the payloads (poll.py, lines 116 to 126): a call that raises is
  counted and skipped.\<close>

fun aggregate :: "catalog \<Rightarrow> payload list \<Rightarrow> item list \<times> string set \<times> nat
    \<Rightarrow> item list \<times> string set \<times> nat" where
  "aggregate search [] (merged, merge_ids, errors) = (merged, merge_ids, errors)"
| "aggregate search (p # ps) (merged, merge_ids, errors) =
     (case search p of
        None \<Rightarrow> aggregate search ps (merged, merge_ids, errors + 1)
      | Some content \<Rightarrow>
          (case merge_content content (merged, merge_ids) of
             (merged', merge_ids') \<Rightarrow> aggregate search ps (merged', merge_ids', errors)))"

text \<open>
  \<^verbatim>\<open>merged.sort(key=lambda x: x.get("dataPubblicazione", ""), reverse=True)\<close>.
  The key of an item without the field is the empty string. The key of an item whose
  field is \<^verbatim>\<open>null\<close> is None, and Python raises TypeError as soon as it compares None
  with a string or with None, which a sort of two or more elements does for each of
  them. A sort with \<^verbatim>\<open>reverse=True\<close> is stable: it reverses, sorts ascending, and
  reverses again. Strings compare by code point, a proper prefix first.
\<close>

definition sort_key_of :: "item \<Rightarrow> string" where
  "sort_key_of x = (case dataPubblicazione x of Str s \<Rightarrow> s | Absent \<Rightarrow> [] | Null \<Rightarrow> [])"

definition sort_merged :: "item list \<Rightarrow> error + item list" where
  "sort_merged merged =
     (if 2 \<le> length merged \<and> Null \<in> set (map dataPubblicazione merged)
      then Inl TypeError
      else Inr (rev (sort_key sort_key_of (rev merged))))"

section \<open>Seen-set tracking\<close>

text \<open>\<^verbatim>\<open>[it for it in merged if it.get("id") not in seen_for_this]\<close>, where
  \<^verbatim>\<open>seen_for_this\<close> is a set of strings.\<close>

definition new_items_of :: "string list \<Rightarrow> item list \<Rightarrow> item list" where
  "new_items_of seen_for_this merged =
     filter (\<lambda>it. case get_id it of None \<Rightarrow> True | Some iid \<Rightarrow> iid \<notin> set seen_for_this) merged"

text \<open>\<^verbatim>\<open>[it["id"] for it in new_items if "id" in it]\<close>. The items come from the merged
  list, whose ids are all non-empty strings (lemma \<open>aggregate_truthy\<close>).\<close>

definition ids_of :: "item list \<Rightarrow> string list" where
  "ids_of new_items =
     concat (map (\<lambda>it. case item_id it of Str s \<Rightarrow> [s] | Null \<Rightarrow> [] | Absent \<Rightarrow> []) new_items)"

text \<open>\<^verbatim>\<open>list(dict.fromkeys(xs))\<close>: the keys are inserted in order, a key already present
  keeps its place.\<close>

fun fromkeys_acc :: "'a list \<Rightarrow> 'a list \<Rightarrow> 'a list" where
  "fromkeys_acc acc [] = acc"
| "fromkeys_acc acc (x # xs) = fromkeys_acc (if x \<in> set acc then acc else acc @ [x]) xs"

definition fromkeys :: "'a list \<Rightarrow> 'a list" where
  "fromkeys xs = fromkeys_acc [] xs"

text \<open>The in-memory commit of poll.py, lines 162 and 167:
  \<^verbatim>\<open>list(dict.fromkeys(prev + ids))\<close>.\<close>

definition commit :: "string list \<Rightarrow> string list \<Rightarrow> string list" where
  "commit prev ids = fromkeys (prev @ ids)"

section \<open>Labels and notifications\<close>

text \<open>\<^verbatim>\<open>sep.join(parts)\<close>.\<close>

fun join :: "string \<Rightarrow> string list \<Rightarrow> string" where
  "join sep [] = []"
| "join sep [x] = x"
| "join sep (x # y # ys) = x @ sep @ join sep (y # ys)"

text \<open>A \<open>char\<close> is eight bits wide. The middle dot U+00B7 of the separator is
  \<open>CHR 0xB7\<close>; the ellipsis U+2026 is written as the single character \<open>CHR 0x85\<close>,
  so that lengths count it once, as Python's \<^verbatim>\<open>len\<close> does.\<close>

definition middot_sep :: string where
  "middot_sep = [CHR '' '', CHR 0xB7, CHR '' '']"

definition ellipsis :: string where
  "ellipsis = [CHR 0x85]"

text \<open>poll.py, \<^verbatim>\<open>_label\<close>.\<close>

definition label :: "search_cfg \<Rightarrow> string" where
  "label cfg =
     (case (case s_label cfg of None \<Rightarrow> None | Some l \<Rightarrow> if l \<noteq> [] then Some l else None) of
        Some l \<Rightarrow> l
      | None \<Rightarrow>
         (let txt = s_text cfg;
              cat0 = join '', '' (map fv_name (categorie cfg));
              cat = (if cat0 \<noteq> [] then cat0
                     else (case categoria cfg of None \<Rightarrow> ''categoria?'' | Some c \<Rightarrow> fv_name c));
              reg = join '', '' (map fv_name (regioni cfg));
              setr = join '', '' (map fv_name (settori cfg));
              parts = [txt, cat] @ (if reg \<noteq> [] then [reg] else []) @ (if setr \<noteq> [] then [setr] else []);
              s = join middot_sep (filter (\<lambda>p. p \<noteq> []) parts)
          in if length s > 65 then take 64 s @ ellipsis else s))"

text \<open>
  What \<^verbatim>\<open>tg_send\<close> is called with. The rendering (\<^verbatim>\<open>summarize_item\<close>) is left
  out; a message is the header it is built with and the item it is about.
  \<open>NewItemMulti l it\<close> is the message with header \<^verbatim>\<open>"<b>" + label + "</b>"\<close>,
  \<open>NewItemLegacy it\<close> the one with header \<^verbatim>\<open>"Nuovo bando INPA:"\<close>, and
  \<open>CheckFailed l n\<close> the notice that all \<open>n\<close> requests of a search failed.
  \<^verbatim>\<open>tg_send\<close> catches its own exceptions, so a send never raises.
\<close>

datatype message = NewItemMulti string item | NewItemLegacy item | CheckFailed string nat

type_synonym outbox = "(string \<times> message) list"

section \<open>Users and the processing of one search\<close>

text \<open>
  The user dict. Each of \<^verbatim>\<open>searches\<close>, \<^verbatim>\<open>seen_ids_map\<close> and \<^verbatim>\<open>seen_ids\<close> may be
  missing (\<open>None\<close>); \<^verbatim>\<open>search\<close> is read with \<^verbatim>\<open>.get\<close> only. The dict
  \<^verbatim>\<open>seen_ids_map\<close> is an association list in insertion order. The wizard's
  \<^verbatim>\<open>draft\<close> is never read by the poller and never written to the store.
\<close>

record user =
  u_searches :: "search_cfg list option"
  u_search :: "search_cfg option"
  u_seen_ids_map :: "(string \<times> string list) list option"
  u_seen_ids :: "string list option"

text \<open>\<^verbatim>\<open>u.get("searches", []) or []\<close>.\<close>

definition searches_of :: "user \<Rightarrow> search_cfg list" where
  "searches_of u = (case u_searches u of None \<Rightarrow> [] | Some ss \<Rightarrow> ss)"

text \<open>\<^verbatim>\<open>u.setdefault("seen_ids_map", {})\<close>: the user after the call.\<close>

definition setdefault_seen_ids_map :: "user \<Rightarrow> user" where
  "setdefault_seen_ids_map u =
     (case u_seen_ids_map u of None \<Rightarrow> u\<lparr>u_seen_ids_map := Some []\<rparr> | Some m \<Rightarrow> u)"

text \<open>\<^verbatim>\<open>seen_map.get(legacy_id, [])\<close> on the user's map.\<close>

definition seen_map_get :: "user \<Rightarrow> string \<Rightarrow> string list" where
  "seen_map_get u k =
     (case u_seen_ids_map u of None \<Rightarrow> []
      | Some m \<Rightarrow> (case map_of m k of None \<Rightarrow> [] | Some ids \<Rightarrow> ids))"

text \<open>\<^verbatim>\<open>seen_map[legacy_id] = v\<close>.\<close>

definition seen_map_set :: "user \<Rightarrow> string \<Rightarrow> string list \<Rightarrow> user" where
  "seen_map_set u k v =
     u\<lparr>u_seen_ids_map := Some (AList.update k v (case u_seen_ids_map u of None \<Rightarrow> [] | Some m \<Rightarrow> m))\<rparr>"

text \<open>\<^verbatim>\<open>u.get("seen_ids", [])\<close>.\<close>

definition seen_ids_get :: "user \<Rightarrow> string list" where
  "seen_ids_get u = (case u_seen_ids u of None \<Rightarrow> [] | Some ids \<Rightarrow> ids)"

text \<open>
  poll.py, \<^verbatim>\<open>_process_one_search\<close>. The result is \<open>Inl e\<close> when the call raises
  \<open>e\<close>; otherwise the returned flag, the user dict after the in-place updates and the
  messages sent, oldest first. The exception kept here is the one of the sort, which
  runs before any message is sent. Not modelled, because the display fields are opaque
  and a response is its list of items: the \<^verbatim>\<open>TypeError\<close> of \<^verbatim>\<open>summarize_item\<close> for
  an item whose \<^verbatim>\<open>entiRiferimento\<close> or \<^verbatim>\<open>sedi\<close> is \<^verbatim>\<open>null\<close>, and the one of
  iterating a response whose \<^verbatim>\<open>content\<close> is \<^verbatim>\<open>null\<close>. Both are uncaught in the
  source, like the one of the sort.
\<close>

definition process_one_search ::
    "catalog \<Rightarrow> string \<Rightarrow> user \<Rightarrow> search_cfg \<Rightarrow> string \<Rightarrow> error + (bool \<times> user \<times> outbox)" where
  "process_one_search search chat_id u search_cfg legacy_id =
     (let payloads = iter_payloads search_cfg in
      if payloads = [] then Inr (False, u, [])
      else
        (case aggregate search payloads ([], {}, 0) of (merged, merge_ids, errors) \<Rightarrow>
           if merged = [] then
             Inr (False, u,
                  if errors \<noteq> 0 \<and> merge_ids = {}
                  then [(chat_id, CheckFailed (label search_cfg) errors)] else [])
           else
             (case sort_merged merged of
                Inl e \<Rightarrow> Inl e
              | Inr sorted_items \<Rightarrow>
                  (let multi_mode = (searches_of u \<noteq> []);
                       u1 = (if multi_mode then setdefault_seen_ids_map u else u);
                       seen_for_this = (if multi_mode then seen_map_get u1 legacy_id
                                        else seen_ids_get u1);
                       new_items = new_items_of seen_for_this sorted_items
                   in if new_items = [] then Inr (False, u1, [])
                      else
                        (let lbl = label search_cfg;
                             msgs = map (\<lambda>it. (chat_id,
                                      if multi_mode then NewItemMulti lbl it else NewItemLegacy it))
                                      new_items;
                             ids = ids_of new_items
                         in if multi_mode
                            then Inr (True, seen_map_set u1 legacy_id
                                        (commit (seen_map_get u1 legacy_id) ids), msgs)
                            else Inr (True, u1\<lparr>u_seen_ids := Some (commit (seen_ids_get u1) ids)\<rparr>,
                                      msgs))))))"

section \<open>The poll cycle\<close>

text \<open>
  \<^verbatim>\<open>Poll\<close> is given a state object and uses two of its methods. \<open>api_all_users\<close>
  is \<^verbatim>\<open>all_users()\<close>, the users in iteration order; \<open>api_set_user\<close> is
  \<^verbatim>\<open>set_user(chat_id, u)\<close>, which returns the store after the call and the exception
  it raised, if any.
\<close>

record 'st state_api =
  api_all_users :: "'st \<Rightarrow> (string \<times> user) list"
  api_set_user :: "string \<Rightarrow> user \<Rightarrow> 'st \<Rightarrow> error option \<times> 'st"

text \<open>\<^verbatim>\<open>sid = s.get("id") or _label(s)\<close>.\<close>

definition sid_of :: "search_cfg \<Rightarrow> string" where
  "sid_of s = (case s_id s of None \<Rightarrow> label s | Some i \<Rightarrow> if i \<noteq> [] then i else label s)"

text \<open>The loop \<^verbatim>\<open>for s in searches\<close> of \<^verbatim>\<open>run_once\<close> (poll.py, lines 96 to 98):
  the exception that ended it, if any, the flag \<^verbatim>\<open>changed\<close>, the user dict and the
  messages sent so far.\<close>

fun process_searches ::
    "catalog \<Rightarrow> string \<Rightarrow> search_cfg list \<Rightarrow> user \<Rightarrow> bool \<Rightarrow> error option \<times> bool \<times> user \<times> outbox" where
  "process_searches search chat_id [] u changed = (None, changed, u, [])"
| "process_searches search chat_id (s # ss) u changed =
     (case process_one_search search chat_id u s (sid_of s) of
        Inl e \<Rightarrow> (Some e, changed, u, [])
      | Inr (c, u', msgs) \<Rightarrow>
          (case process_searches search chat_id ss u' (changed \<or> c) of
             (e, changed', u'', msgs') \<Rightarrow> (e, changed', u'', msgs @ msgs')))"

text \<open>The body of the loop \<^verbatim>\<open>for chat_id, u in users.items()\<close> (poll.py, lines 84
  to 102): the exception raised, if any, the store and the messages sent.\<close>

definition process_user ::
    "'st state_api \<Rightarrow> catalog \<Rightarrow> string \<times> user \<Rightarrow> 'st \<Rightarrow> error option \<times> 'st \<times> outbox" where
  "process_user api search cu st =
     (case cu of (chat_id, u) \<Rightarrow>
        if searches_of u = [] then
          (case u_search u of
             None \<Rightarrow> (None, st, [])
           | Some legacy \<Rightarrow>
               (case process_one_search search chat_id u legacy ''__legacy__'' of
                  Inl e \<Rightarrow> (Some e, st, [])
                | Inr (c, u', msgs) \<Rightarrow> (None, st, msgs)))
        else
          (case process_searches search chat_id (searches_of u) (setdefault_seen_ids_map u) False of
             (Some e, changed, u', msgs) \<Rightarrow> (Some e, st, msgs)
           | (None, changed, u', msgs) \<Rightarrow>
               if changed
               then (case api_set_user api chat_id u' st of (e, st') \<Rightarrow> (e, st', msgs))
               else (None, st, msgs)))"

text \<open>The loop over the users: nothing in \<^verbatim>\<open>run_once\<close> catches an exception, so
  the first one ends the loop.\<close>

fun run_users ::
    "'st state_api \<Rightarrow> catalog \<Rightarrow> (string \<times> user) list \<Rightarrow> 'st \<Rightarrow> error option \<times> 'st \<times> outbox" where
  "run_users api search [] st = (None, st, [])"
| "run_users api search (cu # us) st =
     (case process_user api search cu st of
        (Some e, st', msgs) \<Rightarrow> (Some e, st', msgs)
      | (None, st', msgs) \<Rightarrow>
          (case run_users api search us st' of
             (e, st'', msgs') \<Rightarrow> (e, st'', msgs @ msgs')))"

text \<open>poll.py, \<^verbatim>\<open>Poll.run_once\<close>.\<close>

definition run_once :: "'st state_api \<Rightarrow> catalog \<Rightarrow> 'st \<Rightarrow> error option \<times> 'st \<times> outbox" where
  "run_once api search st = run_users api search (api_all_users api st) st"

section \<open>The JSON state (state.py)\<close>

text \<open>The file holds the dict \<^verbatim>\<open>users\<close>, here an association list in insertion
  order. \<^verbatim>\<open>all_users\<close> loads it; \<^verbatim>\<open>set_user\<close> loads it, replaces the node of
  the user and saves it.\<close>

type_synonym json_state = "(string \<times> user) list"

definition json_all_users :: "json_state \<Rightarrow> (string \<times> user) list" where
  "json_all_users st = st"

definition json_set_user :: "string \<Rightarrow> user \<Rightarrow> json_state \<Rightarrow> error option \<times> json_state" where
  "json_set_user chat_id user_obj st = (None, AList.update chat_id user_obj st)"

definition json_api :: "json_state state_api" where
  "json_api = \<lparr>api_all_users = json_all_users, api_set_user = json_set_user\<rparr>"

section \<open>The SQLite state (state_sqlite.py)\<close>

text \<open>
  The tables of \<^verbatim>\<open>SCHEMA\<close>, each a list of rows in insertion order; the column
  \<^verbatim>\<open>created_at\<close> and the autoincrement key of \<^verbatim>\<open>search_filters\<close> are left
  out. \<^verbatim>\<open>seen_items\<close> holds pairs (search id, item id), \<^verbatim>\<open>legacy_seen\<close> pairs
  (chat id, item id).
\<close>

datatype kind = Category | Region | Sector

record search_row =
  r_id :: string
  r_chat_id :: string
  r_text :: string
  r_label :: "string option"

record filter_row =
  f_search_id :: string
  f_kind :: kind
  f_value_id :: string
  f_value_name :: string

record db =
  users :: "string list"
  searches :: "search_row list"
  search_filters :: "filter_row list"
  seen_items :: "(string \<times> string) list"
  legacy_seen :: "(string \<times> string) list"

text \<open>
  The statements that \<^verbatim>\<open>set_user\<close> and \<^verbatim>\<open>append_seen\<close> send to the
  connection, one constructor per SQL text of the source; \<^verbatim>\<open>executemany\<close> sends one
  statement per parameter row. \<open>PyRaise e\<close> stands for a Python exception raised
  between two statements (the \<^verbatim>\<open>KeyError\<close> of \<^verbatim>\<open>s["id"]\<close>).
\<close>

datatype stmt =
    EnsureUser string
  | UpsertSearch string string string "string option"
  | DeleteFilters string
  | InsertFilter string kind string string
  | DeleteSearch string
  | InsertSeen string string
  | InsertLegacySeen string string
  | PyRaise error

definition search_ids :: "db \<Rightarrow> string set" where
  "search_ids d = set (map r_id (searches d))"

text \<open>
  One statement on the database, with \<^verbatim>\<open>PRAGMA foreign_keys=ON\<close> as \<^verbatim>\<open>_conn\<close>
  sets it. A statement that violates a foreign key fails with \<^verbatim>\<open>IntegrityError\<close>
  and changes nothing; \<^verbatim>\<open>OR IGNORE\<close> skips a row whose primary key exists already
  and does not cover a foreign key. The upsert keeps the \<^verbatim>\<open>chat_id\<close> of a row that
  exists. Deleting a search cascades to its filter rows and its seen rows.
\<close>

fun exec_stmt :: "stmt \<Rightarrow> db \<Rightarrow> error + db" where
  "exec_stmt (EnsureUser chat_id) d =
     Inr (if chat_id \<in> set (users d) then d else d\<lparr>users := users d @ [chat_id]\<rparr>)"
| "exec_stmt (UpsertSearch sid chat_id txt lbl) d =
     (if sid \<in> search_ids d
      then Inr (d\<lparr>searches := map (\<lambda>r. if r_id r = sid then r\<lparr>r_text := txt, r_label := lbl\<rparr> else r)
                                   (searches d)\<rparr>)
      else if chat_id \<in> set (users d)
      then Inr (d\<lparr>searches := searches d @
                  [\<lparr>r_id = sid, r_chat_id = chat_id, r_text = txt, r_label = lbl\<rparr>]\<rparr>)
      else Inl IntegrityError)"
| "exec_stmt (DeleteFilters sid) d =
     Inr (d\<lparr>search_filters := filter (\<lambda>f. f_search_id f \<noteq> sid) (search_filters d)\<rparr>)"
| "exec_stmt (InsertFilter sid k value_id value_name) d =
     (if sid \<in> search_ids d
      then Inr (d\<lparr>search_filters := search_filters d @
                  [\<lparr>f_search_id = sid, f_kind = k, f_value_id = value_id, f_value_name = value_name\<rparr>]\<rparr>)
      else Inl IntegrityError)"
| "exec_stmt (DeleteSearch sid) d =
     Inr (d\<lparr>searches := filter (\<lambda>r. r_id r \<noteq> sid) (searches d),
            search_filters := filter (\<lambda>f. f_search_id f \<noteq> sid) (search_filters d),
            seen_items := filter (\<lambda>p. fst p \<noteq> sid) (seen_items d)\<rparr>)"
| "exec_stmt (InsertSeen sid iid) d =
     (if (sid, iid) \<in> set (seen_items d) then Inr d
      else if sid \<in> search_ids d then Inr (d\<lparr>seen_items := seen_items d @ [(sid, iid)]\<rparr>)
      else Inl IntegrityError)"
| "exec_stmt (InsertLegacySeen chat_id iid) d =
     (if (chat_id, iid) \<in> set (legacy_seen d) then Inr d
      else if chat_id \<in> set (users d) then Inr (d\<lparr>legacy_seen := legacy_seen d @ [(chat_id, iid)]\<rparr>)
      else Inl IntegrityError)"
| "exec_stmt (PyRaise e) d = Inl e"

text \<open>
  The connection is opened with \<^verbatim>\<open>isolation_level=None\<close> (autocommit) and no
  statement opens a transaction: every statement is committed as soon as it has run.
  The run of a statement list stops at the first failure, with the database as the
  statements before it left it.
\<close>

fun run_stmts :: "stmt list \<Rightarrow> db \<Rightarrow> error option \<times> db" where
  "run_stmts [] d = (None, d)"
| "run_stmts (s # ss) d =
     (case exec_stmt s d of
        Inl e \<Rightarrow> (Some e, d)
      | Inr d' \<Rightarrow> run_stmts ss d')"

text \<open>The statements of one pass of the loop \<^verbatim>\<open>for s in u["searches"]\<close>
  (\<^verbatim>\<open>state_sqlite.py\<close>, lines 210 to 235).\<close>

definition search_stmts :: "string \<Rightarrow> search_cfg \<Rightarrow> stmt list" where
  "search_stmts chat_id s =
     (case s_id s of
        None \<Rightarrow> [PyRaise KeyError]
      | Some sid \<Rightarrow>
          [UpsertSearch sid chat_id (s_text s) (s_label s), DeleteFilters sid]
          @ map (\<lambda>cat. InsertFilter sid Category (fv_id cat) (fv_name cat)) (categorie s)
          @ map (\<lambda>reg. InsertFilter sid Region (fv_id reg) (fv_name reg)) (regioni s)
          @ map (\<lambda>sett. InsertFilter sid Sector (fv_id sett) (fv_name sett)) (settori s))"

text \<open>\<^verbatim>\<open>SELECT id FROM searches WHERE chat_id=?\<close>.\<close>

definition existing_ids :: "string \<Rightarrow> db \<Rightarrow> string list" where
  "existing_ids chat_id d = map r_id (filter (\<lambda>r. r_chat_id r = chat_id) (searches d))"

text \<open>The ids collected in \<^verbatim>\<open>incoming_ids\<close>.\<close>

definition incoming_ids :: "search_cfg list \<Rightarrow> string set" where
  "incoming_ids ss = set (drop_none (map s_id ss))"

text \<open>
  The statements of \<^verbatim>\<open>set_user\<close> after \<^verbatim>\<open>_ensure_user\<close>, in program order,
  given the ids read into \<^verbatim>\<open>existing\<close>. The searches to delete are taken in table
  order (the source iterates over a set difference).
\<close>

definition set_user_stmts :: "string \<Rightarrow> user \<Rightarrow> string list \<Rightarrow> stmt list" where
  "set_user_stmts chat_id u existing =
     (case u_searches u of
        None \<Rightarrow> []
      | Some ss \<Rightarrow>
          concat (map (search_stmts chat_id) ss)
          @ map DeleteSearch (filter (\<lambda>x. x \<notin> incoming_ids ss) existing))
     @ (case u_seen_ids_map u of
          None \<Rightarrow> []
        | Some m \<Rightarrow> concat (map (\<lambda>(sid, ids). map (InsertSeen sid) ids) m))
     @ (case u_seen_ids u of
          None \<Rightarrow> []
        | Some ids \<Rightarrow> map (InsertLegacySeen chat_id) ids)"

text \<open>All statements of one call of \<^verbatim>\<open>set_user\<close> on a database.\<close>

definition set_user_trace :: "string \<Rightarrow> user \<Rightarrow> db \<Rightarrow> stmt list" where
  "set_user_trace chat_id u d = EnsureUser chat_id # set_user_stmts chat_id u (existing_ids chat_id d)"

text \<open>\<^verbatim>\<open>state_sqlite.py\<close>, \<^verbatim>\<open>State.set_user\<close>: the exception raised, if any, and the
  database after the call.\<close>

definition set_user :: "string \<Rightarrow> user \<Rightarrow> db \<Rightarrow> error option \<times> db" where
  "set_user chat_id u d = run_stmts (set_user_trace chat_id u d) d"

text \<open>The database when the process is stopped after the first \<open>n\<close> statements of the
  call have run.\<close>

definition set_user_interrupted :: "nat \<Rightarrow> string \<Rightarrow> user \<Rightarrow> db \<Rightarrow> db" where
  "set_user_interrupted n chat_id u d = snd (run_stmts (take n (set_user_trace chat_id u d)) d)"

text \<open>\<^verbatim>\<open>state_sqlite.py\<close>, \<^verbatim>\<open>State.append_seen\<close>; \<^verbatim>\<open>if search_id\<close> holds for a
  non-empty string.\<close>

definition append_seen :: "string \<Rightarrow> string list \<Rightarrow> string option \<Rightarrow> db \<Rightarrow> error option \<times> db" where
  "append_seen chat_id ids search_id d =
     (if ids = [] then (None, d)
      else run_stmts
             (EnsureUser chat_id #
              (case (case search_id of None \<Rightarrow> None | Some s \<Rightarrow> if s \<noteq> [] then Some s else None) of
                 Some sid \<Rightarrow> map (InsertSeen sid) ids
               | None \<Rightarrow> map (InsertLegacySeen chat_id) ids))
             d)"

text \<open>Referential integrity: the four foreign keys of the schema.\<close>

definition fk_ok :: "db \<Rightarrow> bool" where
  "fk_ok d \<longleftrightarrow>
     list_all (\<lambda>r. r_chat_id r \<in> set (users d)) (searches d)
     \<and> list_all (\<lambda>f. f_search_id f \<in> search_ids d) (search_filters d)
     \<and> list_all (\<lambda>p. fst p \<in> search_ids d) (seen_items d)
     \<and> list_all (\<lambda>p. fst p \<in> set (users d)) (legacy_seen d)"

section \<open>Notions used to state the properties\<close>

text \<open>The items of all responses that arrived, in the order of the payloads; a call
  that raised contributes nothing.\<close>

definition stream_of :: "catalog \<Rightarrow> payload list \<Rightarrow> item list" where
  "stream_of search ps =
     concat (map (\<lambda>p. case search p of None \<Rightarrow> [] | Some content \<Rightarrow> content) ps)"

text \<open>Python's truth value of \<^verbatim>\<open>it.get("id")\<close>: a non-empty string.\<close>

definition truthy_id :: "item \<Rightarrow> bool" where
  "truthy_id it = (case get_id it of None \<Rightarrow> False | Some i \<Rightarrow> i \<noteq> [])"

text \<open>The invariant of the merge loop: \<^verbatim>\<open>merge_ids\<close> holds exactly the ids of
  \<^verbatim>\<open>merged\<close>, no id occurs twice, and every id is a non-empty string.\<close>

definition merge_inv :: "item list \<times> string set \<Rightarrow> bool" where
  "merge_inv acc \<longleftrightarrow>
     snd acc = {i. Some i \<in> get_id ` set (fst acc)}
     \<and> distinct (map get_id (fst acc))
     \<and> list_all truthy_id (fst acc)"

text \<open>No row of the three tables \<^verbatim>\<open>searches\<close>, \<^verbatim>\<open>search_filters\<close> and
  \<^verbatim>\<open>seen_items\<close> mentions the search id.\<close>

definition no_rows_for :: "string \<Rightarrow> db \<Rightarrow> bool" where
  "no_rows_for sid d \<longleftrightarrow>
     sid \<notin> search_ids d
     \<and> sid \<notin> set (map f_search_id (search_filters d))
     \<and> sid \<notin> set (map fst (seen_items d))"

text \<open>The items that the messages of an outbox announce.\<close>

definition notified_items :: "outbox \<Rightarrow> item list" where
  "notified_items msgs =
     concat (map (\<lambda>(chat_id, m). case m of NewItemMulti l it \<Rightarrow> [it]
                                     | NewItemLegacy it \<Rightarrow> [it]
                                     | CheckFailed l n \<Rightarrow> []) msgs)"

text \<open>The catalog in which every call that raises is replaced by a call that returns
  no items.\<close>

definition absorb_failures :: "catalog \<Rightarrow> catalog" where
  "absorb_failures search p = (case search p of None \<Rightarrow> Some [] | Some content \<Rightarrow> Some content)"

text \<open>An outbox without the notices that all requests of a search failed.\<close>

definition without_notices :: "outbox \<Rightarrow> outbox" where
  "without_notices msgs =
     filter (\<lambda>(chat_id, m). case m of CheckFailed l n \<Rightarrow> False
                                    | NewItemMulti l it \<Rightarrow> True
                                    | NewItemLegacy it \<Rightarrow> True) msgs"


section \<open>Example data\<close>

text \<open>A saved search with two categories, no region and three sectors.\<close>

definition example_search :: search_cfg where
  "example_search =
     \<lparr>s_id = Some ''s1'', s_text = ''bibliotec'', s_label = Some ''bibliotec'',
      categorie = [\<lparr>fv_id = ''C1'', fv_name = ''Concorsi''\<rparr>, \<lparr>fv_id = ''C2'', fv_name = ''Avvisi''\<rparr>],
      regioni = [],
      settori = [\<lparr>fv_id = ''S1'', fv_name = ''Cultura''\<rparr>, \<lparr>fv_id = ''S2'', fv_name = ''Scuola''\<rparr>,
                 \<lparr>fv_id = ''S3'', fv_name = ''Sanita''\<rparr>],
      categoria = Some \<lparr>fv_id = ''C1'', fv_name = ''Concorsi''\<rparr>\<rparr>"

text \<open>Catalog items: two versions of the item \<open>A2\<close> (returned by two different
  queries), items without a usable id, and an item whose publication date is
  \<^verbatim>\<open>null\<close>.\<close>

definition item_A1 :: item where
  "item_A1 = \<lparr>item_id = Str ''A1'', dataPubblicazione = Str ''2024-01-02T10:00:00'', display = ''uno''\<rparr>"

definition item_A2 :: item where
  "item_A2 = \<lparr>item_id = Str ''A2'', dataPubblicazione = Str ''2024-01-03T09:30:00'', display = ''due''\<rparr>"

definition item_A2_again :: item where
  "item_A2_again = \<lparr>item_id = Str ''A2'', dataPubblicazione = Str ''2024-01-03T09:30:00'', display = ''due bis''\<rparr>"

definition item_A3 :: item where
  "item_A3 = \<lparr>item_id = Str ''A3'', dataPubblicazione = Absent, display = ''tre''\<rparr>"

definition item_no_id :: item where
  "item_no_id = \<lparr>item_id = Absent, dataPubblicazione = Str ''2024-02-01T00:00:00'', display = ''senza id''\<rparr>"

definition item_null_id :: item where
  "item_null_id = \<lparr>item_id = Null, dataPubblicazione = Str ''2024-02-02T00:00:00'', display = ''id nullo''\<rparr>"

definition item_empty_id :: item where
  "item_empty_id = \<lparr>item_id = Str [], dataPubblicazione = Str ''2024-02-03T00:00:00'', display = ''id vuoto''\<rparr>"

definition item_null_date :: item where
  "item_null_date = \<lparr>item_id = Str ''B1'', dataPubblicazione = Null, display = ''senza data''\<rparr>"

text \<open>A catalog for \<open>example_search\<close>: the query for category \<open>C1\<close> and sector
  \<open>S1\<close> returns two items, the one for \<open>C1\<close> and \<open>S2\<close> fails, the one for \<open>C2\<close>
  and \<open>S1\<close> returns \<open>A2\<close> again together with items that have no usable id, and
  every other query returns nothing.\<close>

definition example_catalog :: catalog where
  "example_catalog p =
     (if categoriaId p = ''C1'' \<and> settoreId p = Some ''S1'' then Some [item_A1, item_A2]
      else if categoriaId p = ''C1'' \<and> settoreId p = Some ''S2'' then None
      else if categoriaId p = ''C2'' \<and> settoreId p = Some ''S1''
        then Some [item_no_id, item_A2_again, item_null_id, item_A3, item_empty_id]
      else Some [])"

text \<open>A second saved search of the same user.\<close>

definition example_search_s2 :: search_cfg where
  "example_search_s2 =
     \<lparr>s_id = Some ''s2'', s_text = ''archiv'', s_label = Some ''archiv'',
      categorie = [\<lparr>fv_id = ''C2'', fv_name = ''Avvisi''\<rparr>], regioni = [], settori = [],
      categoria = Some \<lparr>fv_id = ''C2'', fv_name = ''Avvisi''\<rparr>\<rparr>"

text \<open>A database with one user who has stored \<open>example_search\<close> and
  \<open>example_search_s2\<close>, each with its filter rows and one seen item.\<close>

definition example_db :: db where
  "example_db =
     \<lparr>users = [''42''],
      searches = [\<lparr>r_id = ''s1'', r_chat_id = ''42'', r_text = ''bibliotec'', r_label = Some ''bibliotec''\<rparr>,
                  \<lparr>r_id = ''s2'', r_chat_id = ''42'', r_text = ''archiv'', r_label = Some ''archiv''\<rparr>],
      search_filters =
        [\<lparr>f_search_id = ''s1'', f_kind = Category, f_value_id = ''C1'', f_value_name = ''Concorsi''\<rparr>,
         \<lparr>f_search_id = ''s1'', f_kind = Category, f_value_id = ''C2'', f_value_name = ''Avvisi''\<rparr>,
         \<lparr>f_search_id = ''s1'', f_kind = Sector, f_value_id = ''S1'', f_value_name = ''Cultura''\<rparr>,
         \<lparr>f_search_id = ''s1'', f_kind = Sector, f_value_id = ''S2'', f_value_name = ''Scuola''\<rparr>,
         \<lparr>f_search_id = ''s1'', f_kind = Sector, f_value_id = ''S3'', f_value_name = ''Sanita''\<rparr>,
         \<lparr>f_search_id = ''s2'', f_kind = Category, f_value_id = ''C2'', f_value_name = ''Avvisi''\<rparr>],
      seen_items = [(''s1'', ''A1''), (''s2'', ''A9'')],
      legacy_seen = []\<rparr>"

text \<open>The user dict that the delete button of the handlers passes to
  \<^verbatim>\<open>set_user\<close> for this database: what \<^verbatim>\<open>get_user\<close> returned, with the search
  \<open>s2\<close> taken out of \<^verbatim>\<open>searches\<close> and \<^verbatim>\<open>seen_ids_map\<close> left as it was.\<close>

definition example_user_deleting :: user where
  "example_user_deleting =
     \<lparr>u_searches = Some [example_search],
      u_search = Some example_search_s2,
      u_seen_ids_map = Some [(''s1'', [''A1'']), (''s2'', [''A9''])],
      u_seen_ids = Some []\<rparr>"

text \<open>A user dict that keeps only the search \<open>s1\<close>, unchanged, and holds one more
  seen item for it.\<close>

definition example_user_saving :: user where
  "example_user_saving =
     \<lparr>u_searches = Some [example_search],
      u_search = Some example_search,
      u_seen_ids_map = Some [(''s1'', [''A1'', ''A2''])],
      u_seen_ids = Some []\<rparr>"

text \<open>A user in multi-search mode whose only search is \<open>example_search\<close>, with the
  item \<open>A1\<close> already seen.\<close>

definition example_user_multi :: user where
  "example_user_multi =
     \<lparr>u_searches = Some [example_search],
      u_search = Some example_search,
      u_seen_ids_map = Some [(''s1'', [''A1''])],
      u_seen_ids = Some []\<rparr>"

text \<open>
  A legacy user of the JSON state: no \<^verbatim>\<open>searches\<close>, a single legacy search with text
  and one \<^verbatim>\<open>categoria\<close>, and a flat list of seen ids. Next to it the user with
  exactly one equivalent saved search and the same seen ids under that search.
\<close>

definition legacy_search :: search_cfg where
  "legacy_search =
     \<lparr>s_id = None, s_text = ''bibliotec'', s_label = None,
      categorie = [], regioni = [], settori = [],
      categoria = Some \<lparr>fv_id = ''C1'', fv_name = ''Concorsi''\<rparr>\<rparr>"

definition single_search :: search_cfg where
  "single_search =
     \<lparr>s_id = Some ''s1'', s_text = ''bibliotec'', s_label = Some ''bibliotec'',
      categorie = [\<lparr>fv_id = ''C1'', fv_name = ''Concorsi''\<rparr>], regioni = [], settori = [],
      categoria = Some \<lparr>fv_id = ''C1'', fv_name = ''Concorsi''\<rparr>\<rparr>"

definition legacy_user :: user where
  "legacy_user =
     \<lparr>u_searches = None, u_search = Some legacy_search,
      u_seen_ids_map = None, u_seen_ids = Some [''A0'']\<rparr>"

definition single_search_user :: user where
  "single_search_user =
     \<lparr>u_searches = Some [single_search], u_search = Some single_search,
      u_seen_ids_map = Some [(''s1'', [''A0''])], u_seen_ids = Some []\<rparr>"

text \<open>A catalog that answers every query for category \<open>C1\<close> with the items \<open>A1\<close>
  and \<open>A2\<close>, and every query for category \<open>C9\<close> with two items of which one has a
  \<^verbatim>\<open>null\<close> publication date.\<close>

definition simple_catalog :: catalog where
  "simple_catalog p =
     (if categoriaId p = ''C1'' then Some [item_A1, item_A2]
      else if categoriaId p = ''C9'' then Some [item_null_date, item_A1]
      else Some [])"

text \<open>A saved search for category \<open>C9\<close> and a user \<open>41\<close> who owns it.\<close>

definition null_date_search :: search_cfg where
  "null_date_search =
     \<lparr>s_id = Some ''s9'', s_text = ''archiv'', s_label = Some ''archiv'',
      categorie = [\<lparr>fv_id = ''C9'', fv_name = ''Mobilita''\<rparr>], regioni = [], settori = [],
      categoria = Some \<lparr>fv_id = ''C9'', fv_name = ''Mobilita''\<rparr>\<rparr>"

definition null_date_user :: user where
  "null_date_user =
     \<lparr>u_searches = Some [null_date_search], u_search = Some null_date_search,
      u_seen_ids_map = Some [(''s9'', [])], u_seen_ids = Some []\<rparr>"

section \<open>Properties of the query expansion\<close>

lemma length_or_none: "length (or_none xs) = max (length xs) 1"
  by (cases xs) (simp_all add: or_none_def)

lemma drop_none_map_Some: "drop_none (map Some xs) = xs"
  by (induction xs) simp_all

lemma length_concat_const:
  "(\<And>x. x \<in> set xs \<Longrightarrow> length (f x) = n) \<Longrightarrow> length (concat (map f xs)) = length xs * n"
  by (induction xs) simp_all

lemma length_product3:
  "length (concat (map (\<lambda>a. concat (map (\<lambda>b. map (g a b) cs) bs)) as))
     = length as * length bs * length cs"
  by (simp add: length_concat_const)

lemma length_iter_payloads_cats:
  "length (iter_payloads cfg) =
     length (drop_none (if categorie cfg \<noteq> [] then map Some (categorie cfg) else [categoria cfg]))
       * max (length (regioni cfg)) 1 * max (length (settori cfg)) 1"
  unfolding iter_payloads_def Let_def
  by (simp only: length_product3 length_or_none)

lemma length_concat_singleton: "length (concat (map (\<lambda>x. [f x]) xs)) = length xs"
  by (induction xs) simp_all

lemma length_build_payloads_from_search:
  "length (build_payloads_from_search s) =
     length (categorie s) * max (length (regioni s)) 1 * max (length (settori s)) 1"
proof (cases "categorie s = []")
  case True
  then show ?thesis
    by (simp add: build_payloads_from_search_def or_none_def)
next
  case False
  then show ?thesis
    unfolding build_payloads_from_search_def Let_def
    by (simp add: or_none_def [of "categorie s"] comp_def length_concat_const
          length_concat_singleton length_or_none)
qed

text \<open>
  Claim C4. For a SavedSearch with \<open>k\<close> categories, \<open>r\<close> regions and \<open>s\<close> sectors the
  expander of the poller (\<open>iter_payloads\<close>) and the one of the handlers
  (\<open>build_payloads_from_search\<close>) both produce exactly \<open>k * max r 1 * max s 1\<close> payloads:
  an empty optional dimension counts as one "no filter" value, and with no category the
  result is the empty list.
\<close>

theorem C4_expander_count:
  assumes "saved_search cfg"
  shows "length (iter_payloads cfg)
           = length (categorie cfg) * max (length (regioni cfg)) 1 * max (length (settori cfg)) 1
         \<and> length (build_payloads_from_search cfg)
           = length (categorie cfg) * max (length (regioni cfg)) 1 * max (length (settori cfg)) 1
         \<and> iter_payloads (cfg\<lparr>categorie := [], categoria := None\<rparr>) = []
         \<and> build_payloads_from_search (cfg\<lparr>categorie := []\<rparr>) = []"
proof -
  have cats: "length (drop_none (if categorie cfg \<noteq> [] then map Some (categorie cfg) else [categoria cfg]))
                = length (categorie cfg)"
    using assms by (simp add: saved_search_def first_or_none_def drop_none_map_Some)
  have a: "length (iter_payloads cfg)
           = length (categorie cfg) * max (length (regioni cfg)) 1 * max (length (settori cfg)) 1"
    by (simp only: length_iter_payloads_cats cats)
  have b: "length (build_payloads_from_search cfg)
           = length (categorie cfg) * max (length (regioni cfg)) 1 * max (length (settori cfg)) 1"
    by (rule length_build_payloads_from_search)
  have c: "iter_payloads (cfg\<lparr>categorie := [], categoria := None\<rparr>) = []"
    by (simp add: iter_payloads_def)
  have d: "build_payloads_from_search (cfg\<lparr>categorie := []\<rparr>) = []"
    using length_build_payloads_from_search [of "cfg\<lparr>categorie := []\<rparr>"] by simp
  from a b c d show ?thesis by blast
qed

theorem C4_expander_count_witness:
  "saved_search example_search
   \<and> length (iter_payloads example_search) = 6
   \<and> length (build_payloads_from_search example_search) = 6"
  using C4_expander_count [of example_search]
  by (simp add: example_search_def saved_search_def first_or_none_def)

section \<open>Properties of the aggregation\<close>

lemma merge_content_append:
  "merge_content (xs @ ys) acc = merge_content ys (merge_content xs acc)"
proof (induction xs arbitrary: acc)
  case Nil
  then show ?case by (cases acc) simp
next
  case (Cons x xs)
  then show ?case by (cases acc) (simp split: option.splits)
qed

lemma aggregate_stream:
  "aggregate search ps (merged, merge_ids, errors) =
     (fst (merge_content (stream_of search ps) (merged, merge_ids)),
      snd (merge_content (stream_of search ps) (merged, merge_ids)),
      errors + length (filter (\<lambda>p. search p = None) ps))"
proof (induction ps arbitrary: merged merge_ids errors)
  case Nil
  then show ?case by (simp add: stream_of_def)
next
  case (Cons p ps)
  show ?case
  proof (cases "search p")
    case None
    then show ?thesis using Cons [of merged merge_ids "errors + 1"]
      by (simp add: stream_of_def)
  next
    case (Some content)
    obtain m' ids' where r: "merge_content content (merged, merge_ids) = (m', ids')"
      by (cases "merge_content content (merged, merge_ids)")
    have s: "stream_of search (p # ps) = content @ stream_of search ps"
      using Some by (simp add: stream_of_def)
    show ?thesis
      using Some r Cons [of m' ids' errors]
      by (simp add: s merge_content_append)
  qed
qed

lemma merge_inv_step:
  assumes "merge_inv (merged, merge_ids)" "get_id it = Some iid" "iid \<noteq> []" "iid \<notin> merge_ids"
  shows "merge_inv (merged @ [it], insert iid merge_ids)"
  using assms by (auto simp: merge_inv_def truthy_id_def image_iff)

lemma merge_content_inv:
  "merge_inv acc \<Longrightarrow> merge_inv (merge_content xs acc)"
proof (induction xs arbitrary: acc)
  case Nil
  then show ?case by (cases acc) simp
next
  case (Cons x xs)
  obtain merged merge_ids where acc: "acc = (merged, merge_ids)" by (cases acc)
  show ?case
    using Cons.prems Cons.IH merge_inv_step [of merged merge_ids x]
    by (auto simp: acc split: option.splits)
qed

lemma merge_content_ids:
  "snd (merge_content xs (merged, merge_ids)) =
     merge_ids \<union> {i. i \<noteq> [] \<and> Some i \<in> get_id ` set xs}"
proof (induction xs arbitrary: merged merge_ids)
  case Nil
  then show ?case by simp
next
  case (Cons x xs)
  then show ?case by (auto split: option.splits)
qed

lemma merge_content_first:
  "x \<in> set (fst (merge_content xs (merged, merge_ids))) \<Longrightarrow>
     x \<in> set merged \<or>
     (find (\<lambda>it. get_id it = get_id x) xs = Some x
      \<and> (\<exists>i. get_id x = Some i \<and> i \<noteq> [] \<and> i \<notin> merge_ids))"
proof (induction xs arbitrary: merged merge_ids)
  case Nil
  then show ?case by simp
next
  case (Cons y ys)
  show ?case
    using Cons.prems Cons.IH
    by (fastforce split: option.splits if_splits)
qed

text \<open>
  Claim C5. The merge over the responses of all payloads keeps each item id exactly
  once, and the entry kept for an id is the first item with that id in the order in
  which the responses arrive (first-seen-wins). The ids of the merged list are exactly
  the non-empty ids that occur in some response. A payload whose call fails adds no
  item and is counted in \<open>errors\<close>; the payloads after it are still queried.
\<close>

theorem C5_aggregate_first_seen_wins:
  assumes "aggregate search ps ([], {}, 0) = (merged, merge_ids, errors)"
  shows "distinct (map get_id merged)
         \<and> (\<forall>m \<in> set merged. find (\<lambda>it. get_id it = get_id m) (stream_of search ps) = Some m)
         \<and> get_id ` set merged = {Some i | i. i \<noteq> [] \<and> Some i \<in> get_id ` set (stream_of search ps)}
         \<and> errors = length (filter (\<lambda>p. search p = None) ps)"
proof -
  let ?r = "merge_content (stream_of search ps) ([], {})"
  have m: "merged = fst ?r" and i: "merge_ids = snd ?r"
    and e: "errors = length (filter (\<lambda>p. search p = None) ps)"
    using assms by (simp_all add: aggregate_stream)
  have inv: "merge_inv ?r"
    by (rule merge_content_inv) (simp add: merge_inv_def)
  have d: "distinct (map get_id merged)"
    using inv m by (simp add: merge_inv_def)
  have f: "\<forall>m \<in> set merged. find (\<lambda>it. get_id it = get_id m) (stream_of search ps) = Some m"
    using merge_content_first [of _ "stream_of search ps" "[]" "{}"] m by auto
  have ids: "snd ?r = {i. i \<noteq> [] \<and> Some i \<in> get_id ` set (stream_of search ps)}"
    by (simp add: merge_content_ids)
  have a: "snd ?r = {i. Some i \<in> get_id ` set merged}"
    using inv m by (simp add: merge_inv_def)
  have b: "\<forall>x \<in> set merged. \<exists>i. get_id x = Some i"
    using inv m by (auto simp: merge_inv_def truthy_id_def list_all_iff split: option.splits)
  have "get_id ` set merged = Some ` snd ?r"
    using a b by (auto simp: image_iff) force
  then have g: "get_id ` set merged
                 = {Some i | i. i \<noteq> [] \<and> Some i \<in> get_id ` set (stream_of search ps)}"
    by (auto simp: ids)
  from d f g e show ?thesis by blast
qed

lemma example_aggregate:
  "aggregate example_catalog (iter_payloads example_search) ([], {}, 0)
     = ([item_A1, item_A2, item_A3], {''A3'', ''A2'', ''A1''}, 1)"
  by (simp add: iter_payloads_def example_search_def or_none_def build_payload_def
        example_catalog_def get_id_def item_A1_def item_A2_def item_A3_def item_A2_again_def
        item_no_id_def item_null_id_def item_empty_id_def)

theorem C5_aggregate_first_seen_wins_witness:
  "aggregate example_catalog (iter_payloads example_search) ([], {}, 0)
     = ([item_A1, item_A2, item_A3], {''A3'', ''A2'', ''A1''}, 1)
   \<and> distinct (map get_id [item_A1, item_A2, item_A3])
   \<and> find (\<lambda>it. get_id it = get_id item_A2)
        (stream_of example_catalog (iter_payloads example_search)) = Some item_A2
   \<and> (1::nat) = length (filter (\<lambda>p. example_catalog p = None) (iter_payloads example_search))"
  using C5_aggregate_first_seen_wins [OF example_aggregate] example_aggregate
  by simp

section \<open>Properties of the ordering\<close>

lemma sorted_desc_rev_sort_key:
  "sorted_wrt (\<lambda>a b. f b \<le> f a) (rev (sort_key f xs))"
proof -
  have "sorted (map f (sort_key f xs))" by simp
  then have "sorted_wrt (\<lambda>a b. f a \<le> f b) (sort_key f xs)"
    by (simp add: sorted_map)
  then show ?thesis
    by (simp add: sorted_wrt_rev)
qed

text \<open>
  The key of the sort is the raw string of the field, and the empty string when the
  field is absent.
\<close>

lemma sort_key_of_Str: "dataPubblicazione x = Str s \<Longrightarrow> sort_key_of x = s"
  by (simp add: sort_key_of_def)

lemma sort_key_of_Absent: "dataPubblicazione x = Absent \<Longrightarrow> sort_key_of x = []"
  by (simp add: sort_key_of_def)

text \<open>
  On the lists on which the sort returns, which are the lists without a \<^verbatim>\<open>null\<close>
  publication date and the lists of fewer than two items, the result is a permutation
  of the merged list in descending order of the key, and every item after an item
  without the field has the empty key too: the items without a date come last.
\<close>

lemma sort_merged_descending:
  assumes "length merged < 2 \<or> Null \<notin> set (map dataPubblicazione merged)"
  shows "\<exists>out. sort_merged merged = Inr out
           \<and> mset out = mset merged
           \<and> sorted_wrt (\<lambda>a b. sort_key_of b \<le> sort_key_of a) out
           \<and> (\<forall>i j. i < j \<and> j < length out \<and> dataPubblicazione (out ! i) = Absent
                  \<longrightarrow> sort_key_of (out ! j) = [])"
proof -
  let ?out = "rev (sort_key sort_key_of (rev merged))"
  have r: "sort_merged merged = Inr ?out"
    using assms by (auto simp: sort_merged_def)
  have p: "mset ?out = mset merged" by simp
  have s: "sorted_wrt (\<lambda>a b. sort_key_of b \<le> sort_key_of a) ?out"
    by (rule sorted_desc_rev_sort_key)
  have l: "\<forall>i j. i < j \<and> j < length ?out \<and> dataPubblicazione (?out ! i) = Absent
                  \<longrightarrow> sort_key_of (?out ! j) = []"
  proof (intro allI impI)
    fix i j
    assume h: "i < j \<and> j < length ?out \<and> dataPubblicazione (?out ! i) = Absent"
    then have "sort_key_of (?out ! j) \<le> sort_key_of (?out ! i)"
      using s sorted_wrt_nth_less [of "\<lambda>a b. sort_key_of b \<le> sort_key_of a" ?out i j] by blast
    moreover have "sort_key_of (?out ! i) = []"
      using h by (simp add: sort_key_of_def)
    ultimately show "sort_key_of (?out ! j) = []" by simp
  qed
  from r p s l show ?thesis by blast
qed

lemma example_sort:
  "sort_merged [item_A1, item_A3, item_A2] = Inr [item_A2, item_A1, item_A3]"
  by (simp add: sort_merged_def sort_key_of_def item_A1_def item_A2_def item_A3_def)

section \<open>Properties of the seen-set tracker\<close>

text \<open>
  Claim C7. The new items computed from a seen-set and a merged list are exactly the
  items whose id is not in the seen-set: no item of the result has its id in the
  seen-set, every item of the merged list whose id is not in the seen-set is in the
  result, and the result is a subsequence of the merged list, so the order of the
  aggregation is kept.
\<close>

theorem C7_diff_correct:
  "(\<forall>it \<in> set (new_items_of seen items). \<forall>i. get_id it = Some i \<longrightarrow> i \<notin> set seen)
   \<and> (\<forall>it \<in> set items. (\<forall>i. get_id it = Some i \<longrightarrow> i \<notin> set seen)
         \<longrightarrow> it \<in> set (new_items_of seen items))
   \<and> subseq (new_items_of seen items) items"
  by (auto simp: new_items_of_def split: option.splits)

theorem C7_diff_correct_witness:
  "item_A2 \<in> set (new_items_of [''A1''] [item_A2, item_A1, item_A3])
   \<and> item_A1 \<notin> set (new_items_of [''A1''] [item_A2, item_A1, item_A3])
   \<and> subseq (new_items_of [''A1''] [item_A2, item_A1, item_A3]) [item_A2, item_A1, item_A3]"
  using C7_diff_correct [of "[''A1'']" "[item_A2, item_A1, item_A3]"]
  by (auto simp: get_id_def item_A1_def item_A2_def item_A3_def)

section \<open>Idempotence of the commit\<close>

lemma fromkeys_acc_append:
  "fromkeys_acc acc (xs @ ys) = fromkeys_acc (fromkeys_acc acc xs) ys"
  by (induction xs arbitrary: acc) simp_all

lemma set_fromkeys_acc: "set (fromkeys_acc acc xs) = set acc \<union> set xs"
  by (induction xs arbitrary: acc) auto

lemma distinct_fromkeys_acc: "distinct acc \<Longrightarrow> distinct (fromkeys_acc acc xs)"
  by (induction xs arbitrary: acc) auto

lemma fromkeys_acc_subset: "set xs \<subseteq> set acc \<Longrightarrow> fromkeys_acc acc xs = acc"
  by (induction xs arbitrary: acc) auto

lemma fromkeys_acc_distinct: "distinct (acc @ xs) \<Longrightarrow> fromkeys_acc acc xs = acc @ xs"
  by (induction xs arbitrary: acc) auto

lemma fromkeys_idem: "fromkeys (fromkeys xs) = fromkeys xs"
  using fromkeys_acc_distinct [of "[]" "fromkeys_acc [] xs"] distinct_fromkeys_acc [of "[]" xs]
  by (simp add: fromkeys_def)

lemma commit_idem: "commit (commit prev ids) ids = commit prev ids"
proof -
  let ?d = "fromkeys_acc [] (prev @ ids)"
  have "fromkeys_acc [] (?d @ ids) = fromkeys_acc (fromkeys_acc [] ?d) ids"
    by (rule fromkeys_acc_append)
  also have "fromkeys_acc [] ?d = ?d"
    using fromkeys_idem [of "prev @ ids"] by (simp add: fromkeys_def)
  also have "fromkeys_acc ?d ids = ?d"
    by (rule fromkeys_acc_subset) (simp add: set_fromkeys_acc)
  finally show ?thesis by (simp add: commit_def fromkeys_def)
qed

lemma run_stmts_append:
  "run_stmts (a @ b) d =
     (case run_stmts a d of (None, d') \<Rightarrow> run_stmts b d' | (Some e, d') \<Rightarrow> (Some e, d'))"
  by (induction a arbitrary: d) (simp_all split: sum.splits)

lemma insert_seen_mono_snd:
  "set (seen_items d) \<subseteq> set (seen_items (snd (run_stmts (map (InsertSeen sid) ids) d)))
   \<and> users (snd (run_stmts (map (InsertSeen sid) ids) d)) = users d"
proof (induction ids arbitrary: d)
  case Nil
  then show ?case by simp
next
  case (Cons iid ids)
  show ?case
    using Cons [of d] Cons [of "d\<lparr>seen_items := seen_items d @ [(sid, iid)]\<rparr>"]
    by auto
qed

lemma insert_seen_mono:
  "run_stmts (map (InsertSeen sid) ids) d = (e, d') \<Longrightarrow>
     set (seen_items d) \<subseteq> set (seen_items d') \<and> users d' = users d"
  using insert_seen_mono_snd [of d sid ids] by simp

lemma insert_seen_idem:
  "run_stmts (map (InsertSeen sid) ids) d = (e, d') \<Longrightarrow>
     run_stmts (map (InsertSeen sid) ids) d' = (e, d')"
proof (induction ids arbitrary: d)
  case Nil
  then show ?case by simp
next
  case (Cons iid ids)
  show ?case
  proof (cases "(sid, iid) \<in> set (seen_items d)")
    case True
    then have r: "run_stmts (map (InsertSeen sid) ids) d = (e, d')"
      using Cons.prems by simp
    have "(sid, iid) \<in> set (seen_items d')"
      using insert_seen_mono [OF r] True by blast
    then show ?thesis using Cons.IH [OF r] by simp
  next
    case False
    show ?thesis
    proof (cases "sid \<in> search_ids d")
      case True
      let ?d1 = "d\<lparr>seen_items := seen_items d @ [(sid, iid)]\<rparr>"
      have r: "run_stmts (map (InsertSeen sid) ids) ?d1 = (e, d')"
        using Cons.prems False True by simp
      have "(sid, iid) \<in> set (seen_items d')"
        using insert_seen_mono [OF r] by auto
      then show ?thesis using Cons.IH [OF r] by simp
    next
      case nf: False
      then show ?thesis using Cons.prems False by simp
    qed
  qed
qed

lemma insert_legacy_mono_snd:
  "set (legacy_seen d) \<subseteq> set (legacy_seen (snd (run_stmts (map (InsertLegacySeen c) ids) d)))
   \<and> users (snd (run_stmts (map (InsertLegacySeen c) ids) d)) = users d"
proof (induction ids arbitrary: d)
  case Nil
  then show ?case by simp
next
  case (Cons iid ids)
  show ?case
    using Cons [of d] Cons [of "d\<lparr>legacy_seen := legacy_seen d @ [(c, iid)]\<rparr>"]
    by auto
qed

lemma insert_legacy_mono:
  "run_stmts (map (InsertLegacySeen c) ids) d = (e, d') \<Longrightarrow>
     set (legacy_seen d) \<subseteq> set (legacy_seen d') \<and> users d' = users d"
  using insert_legacy_mono_snd [of d c ids] by simp

lemma insert_legacy_idem:
  "run_stmts (map (InsertLegacySeen c) ids) d = (e, d') \<Longrightarrow>
     run_stmts (map (InsertLegacySeen c) ids) d' = (e, d')"
proof (induction ids arbitrary: d)
  case Nil
  then show ?case by simp
next
  case (Cons iid ids)
  show ?case
  proof (cases "(c, iid) \<in> set (legacy_seen d)")
    case True
    then have r: "run_stmts (map (InsertLegacySeen c) ids) d = (e, d')"
      using Cons.prems by simp
    have "(c, iid) \<in> set (legacy_seen d')"
      using insert_legacy_mono [OF r] True by blast
    then show ?thesis using Cons.IH [OF r] by simp
  next
    case False
    show ?thesis
    proof (cases "c \<in> set (users d)")
      case True
      let ?d1 = "d\<lparr>legacy_seen := legacy_seen d @ [(c, iid)]\<rparr>"
      have r: "run_stmts (map (InsertLegacySeen c) ids) ?d1 = (e, d')"
        using Cons.prems False True by simp
      have "(c, iid) \<in> set (legacy_seen d')"
        using insert_legacy_mono [OF r] by auto
      then show ?thesis using Cons.IH [OF r] by simp
    next
      case nf: False
      then show ?thesis using Cons.prems False by simp
    qed
  qed
qed

lemma append_seen_idem:
  "append_seen c ids sid (snd (append_seen c ids sid d)) = append_seen c ids sid d"
proof (cases "ids = []")
  case True
  then show ?thesis by (simp add: append_seen_def)
next
  case False
  let ?d0 = "if c \<in> set (users d) then d else d\<lparr>users := users d @ [c]\<rparr>"
  have u0: "c \<in> set (users ?d0)" by simp
  show ?thesis
  proof (cases "case sid of None \<Rightarrow> None | Some s \<Rightarrow> if s \<noteq> [] then Some s else None")
    case None
    obtain e d' where r: "run_stmts (map (InsertLegacySeen c) ids) ?d0 = (e, d')"
      by (cases "run_stmts (map (InsertLegacySeen c) ids) ?d0")
    have u: "c \<in> set (users d')" using insert_legacy_mono [OF r] u0 by simp
    have first: "append_seen c ids sid d = (e, d')"
      using False None r by (simp add: append_seen_def)
    have "append_seen c ids sid d' = run_stmts (map (InsertLegacySeen c) ids) d'"
      using False None u by (simp add: append_seen_def)
    then show ?thesis using first insert_legacy_idem [OF r] by simp
  next
    case (Some s)
    obtain e d' where r: "run_stmts (map (InsertSeen s) ids) ?d0 = (e, d')"
      by (cases "run_stmts (map (InsertSeen s) ids) ?d0")
    have u: "c \<in> set (users d')" using insert_seen_mono [OF r] u0 by simp
    have first: "append_seen c ids sid d = (e, d')"
      using False Some r by (simp add: append_seen_def)
    have "append_seen c ids sid d' = run_stmts (map (InsertSeen s) ids) d'"
      using False Some u by (simp add: append_seen_def)
    then show ?thesis using first insert_seen_idem [OF r] by simp
  qed
qed

text \<open>
  Claim C8. Committing the same new ids twice gives the same result as committing them
  once. For the in-memory commit of the poller the list after the second commit is the
  list after the first, and its elements are those of the old list and the new ids.
  For the durable \<open>append_seen\<close> the second call returns the same outcome and leaves
  the database of the first call unchanged: every row it would insert exists already.
\<close>

theorem C8_commit_idempotent:
  "commit (commit prev ids) ids = commit prev ids
   \<and> set (commit prev ids) = set prev \<union> set ids
   \<and> append_seen chat_id ids search_id (snd (append_seen chat_id ids search_id d))
       = append_seen chat_id ids search_id d"
  by (simp add: commit_idem append_seen_idem)
     (simp add: commit_def fromkeys_def set_fromkeys_acc)

theorem C8_commit_idempotent_witness:
  "commit (commit [''A1''] [''A2'', ''A1'']) [''A2'', ''A1''] = [''A1'', ''A2'']
   \<and> seen_items (snd (append_seen ''42'' [''A1'', ''A2''] (Some ''s1'')
        (snd (append_seen ''42'' [''A1'', ''A2''] (Some ''s1'') example_db))))
      = [(''s1'', ''A1''), (''s2'', ''A9''), (''s1'', ''A2'')]"
  using C8_commit_idempotent [of "[''A1'']" "[''A2'', ''A1'']" "''42''" "Some ''s1''" example_db]
        C8_commit_idempotent [of "[''A1'']" "[''A1'', ''A2'']" "''42''" "Some ''s1''" example_db]
  by (simp add: commit_def fromkeys_def append_seen_def example_db_def search_ids_def)

section \<open>Properties of the SQLite state\<close>

lemma fk_ok_iff:
  "fk_ok d \<longleftrightarrow>
     r_chat_id ` set (searches d) \<subseteq> set (users d)
     \<and> f_search_id ` set (search_filters d) \<subseteq> search_ids d
     \<and> fst ` set (seen_items d) \<subseteq> search_ids d
     \<and> fst ` set (legacy_seen d) \<subseteq> set (users d)"
  by (auto simp: fk_ok_def list_all_iff)

lemma map_r_id_upsert:
  "map r_id (map (\<lambda>r. if r_id r = sid then r\<lparr>r_text := t, r_label := l\<rparr> else r) rs) = map r_id rs"
  by (induction rs) auto

lemma map_r_chat_id_upsert:
  "map r_chat_id (map (\<lambda>r. if r_id r = sid then r\<lparr>r_text := t, r_label := l\<rparr> else r) rs)
     = map r_chat_id rs"
  by (induction rs) auto

lemma exec_upsert:
  assumes "exec_stmt (UpsertSearch sid c t l) d = Inr d'"
  shows "search_ids d' = insert sid (search_ids d)"
    and "users d' = users d"
    and "search_filters d' = search_filters d"
    and "seen_items d' = seen_items d"
    and "legacy_seen d' = legacy_seen d"
    and "set (map r_chat_id (searches d')) \<subseteq> set (map r_chat_id (searches d)) \<union> set (users d)"
proof -
  consider (upd) "sid \<in> search_ids d"
      "d' = d\<lparr>searches := map (\<lambda>r. if r_id r = sid then r\<lparr>r_text := t, r_label := l\<rparr> else r)
                                   (searches d)\<rparr>"
    | (ins) "sid \<notin> search_ids d" "c \<in> set (users d)"
      "d' = d\<lparr>searches := searches d @ [\<lparr>r_id = sid, r_chat_id = c, r_text = t, r_label = l\<rparr>]\<rparr>"
    using assms by (auto split: if_splits)
  then have "search_ids d' = insert sid (search_ids d)
      \<and> set (map r_chat_id (searches d')) \<subseteq> set (map r_chat_id (searches d)) \<union> set (users d)
      \<and> users d' = users d \<and> search_filters d' = search_filters d
      \<and> seen_items d' = seen_items d \<and> legacy_seen d' = legacy_seen d"
  proof cases
    case upd
    have s: "searches d' = map (\<lambda>r. if r_id r = sid then r\<lparr>r_text := t, r_label := l\<rparr> else r)
                                   (searches d)"
      using upd(2) by simp
    have "map r_id (searches d') = map r_id (searches d)"
      by (simp only: s map_r_id_upsert)
    moreover have "map r_chat_id (searches d') = map r_chat_id (searches d)"
      by (simp only: s map_r_chat_id_upsert)
    ultimately show ?thesis using upd by (auto simp: search_ids_def)
  next
    case ins
    then show ?thesis by (auto simp: search_ids_def)
  qed
  then show "search_ids d' = insert sid (search_ids d)"
    and "users d' = users d"
    and "search_filters d' = search_filters d"
    and "seen_items d' = seen_items d"
    and "legacy_seen d' = legacy_seen d"
    and "set (map r_chat_id (searches d')) \<subseteq> set (map r_chat_id (searches d)) \<union> set (users d)"
    by blast+
qed

lemma fk_ok_exec:
  assumes "fk_ok d" "exec_stmt s d = Inr d'"
  shows "fk_ok d'"
proof (cases s)
  case (EnsureUser c)
  then show ?thesis using assms by (fastforce simp: fk_ok_def list_all_iff search_ids_def split: if_splits)
next
  case (UpsertSearch sid c t l)
  then have e: "exec_stmt (UpsertSearch sid c t l) d = Inr d'" using assms by simp
  show ?thesis
    using assms(1) exec_upsert [OF e]
    by (auto simp: fk_ok_iff)
next
  case (DeleteFilters sid)
  then show ?thesis using assms by (fastforce simp: fk_ok_def list_all_iff search_ids_def split: if_splits)
next
  case (InsertFilter sid k vi vn)
  then show ?thesis using assms by (fastforce simp: fk_ok_def list_all_iff search_ids_def split: if_splits)
next
  case (DeleteSearch sid)
  then show ?thesis using assms by (fastforce simp: fk_ok_def list_all_iff search_ids_def split: if_splits)
next
  case (InsertSeen sid iid)
  then show ?thesis using assms by (fastforce simp: fk_ok_def list_all_iff search_ids_def split: if_splits)
next
  case (InsertLegacySeen c iid)
  then show ?thesis using assms by (fastforce simp: fk_ok_def list_all_iff search_ids_def split: if_splits)
next
  case (PyRaise e)
  then show ?thesis using assms by simp
qed

lemma fk_ok_run: "fk_ok d \<Longrightarrow> fk_ok (snd (run_stmts ss d))"
proof (induction ss arbitrary: d)
  case Nil
  then show ?case by simp
next
  case (Cons s ss)
  show ?case
  proof (cases "exec_stmt s d")
    case (Inl e)
    then show ?thesis using Cons.prems by simp
  next
    case (Inr d')
    then show ?thesis using Cons.IH [OF fk_ok_exec [OF Cons.prems Inr]] by simp
  qed
qed

lemma no_rows_exec:
  assumes "no_rows_for sid d" "exec_stmt s d = Inr d'"
    and "\<forall>c t l. s \<noteq> UpsertSearch sid c t l"
  shows "no_rows_for sid d'"
proof (cases s)
  case (EnsureUser c)
  then show ?thesis using assms by (force simp: no_rows_for_def search_ids_def split: if_splits)
next
  case (UpsertSearch sid' c t l)
  then have "sid' \<noteq> sid" using assms(3) by simp
  moreover have e: "exec_stmt (UpsertSearch sid' c t l) d = Inr d'" using assms UpsertSearch by simp
  ultimately show ?thesis
    using assms(1) exec_upsert [OF e]
    by (auto simp: no_rows_for_def)
next
  case (DeleteFilters sid)
  then show ?thesis using assms by (force simp: no_rows_for_def search_ids_def split: if_splits)
next
  case (InsertFilter sid k vi vn)
  then show ?thesis using assms by (force simp: no_rows_for_def search_ids_def split: if_splits)
next
  case (DeleteSearch sid)
  then show ?thesis using assms by (force simp: no_rows_for_def search_ids_def split: if_splits)
next
  case (InsertSeen sid iid)
  then show ?thesis using assms by (force simp: no_rows_for_def search_ids_def split: if_splits)
next
  case (InsertLegacySeen c iid)
  then show ?thesis using assms by (force simp: no_rows_for_def search_ids_def split: if_splits)
next
  case (PyRaise e)
  then show ?thesis using assms by simp
qed

lemma run_stmts_append_ok:
  "fst (run_stmts a d) = None \<Longrightarrow> run_stmts (a @ b) d = run_stmts b (snd (run_stmts a d))"
  by (cases "run_stmts a d") (simp add: run_stmts_append)

lemma no_rows_run:
  assumes "no_rows_for sid d" "\<forall>s \<in> set ss. \<forall>c t l. s \<noteq> UpsertSearch sid c t l"
  shows "no_rows_for sid (snd (run_stmts ss d))"
  using assms
proof (induction ss arbitrary: d)
  case Nil
  then show ?case by simp
next
  case (Cons s ss)
  show ?case
  proof (cases "exec_stmt s d")
    case (Inl e)
    then show ?thesis using Cons.prems by simp
  next
    case (Inr d')
    have "no_rows_for sid d'"
      using no_rows_exec [OF Cons.prems(1) Inr] Cons.prems(2) by simp
    then show ?thesis using Cons.IH [of d'] Cons.prems(2) Inr by simp
  qed
qed

lemma insert_filters_ok:
  "sid \<in> search_ids d \<Longrightarrow>
     fst (run_stmts (map (\<lambda>x. InsertFilter sid k (f x) (g x)) xs) d) = None
     \<and> search_ids (snd (run_stmts (map (\<lambda>x. InsertFilter sid k (f x) (g x)) xs) d)) = search_ids d
     \<and> users (snd (run_stmts (map (\<lambda>x. InsertFilter sid k (f x) (g x)) xs) d)) = users d"
proof (induction xs arbitrary: d)
  case Nil
  then show ?case by simp
next
  case (Cons x xs)
  let ?d1 = "d\<lparr>search_filters := search_filters d @
                  [\<lparr>f_search_id = sid, f_kind = k, f_value_id = f x, f_value_name = g x\<rparr>]\<rparr>"
  have "sid \<in> search_ids ?d1" using Cons.prems by (simp add: search_ids_def)
  from Cons.IH [OF this] Cons.prems show ?case by (simp add: search_ids_def)
qed

lemma search_stmts_ok:
  assumes "c \<in> set (users d)" "s_id s = Some i"
  shows "fst (run_stmts (search_stmts c s) d) = None
         \<and> users (snd (run_stmts (search_stmts c s) d)) = users d"
proof -
  obtain d1 where e1: "exec_stmt (UpsertSearch i c (s_text s) (s_label s)) d = Inr d1"
    using assms(1) by (cases "i \<in> search_ids d") simp_all
  have i1: "i \<in> search_ids d1" and u1: "users d1 = users d"
    using exec_upsert [OF e1] by simp_all
  let ?d2 = "d1\<lparr>search_filters := filter (\<lambda>f. f_search_id f \<noteq> i) (search_filters d1)\<rparr>"
  have i2: "i \<in> search_ids ?d2" using i1 by (simp add: search_ids_def)
  let ?a = "map (\<lambda>cat. InsertFilter i Category (fv_id cat) (fv_name cat)) (categorie s)"
  let ?b = "map (\<lambda>reg. InsertFilter i Region (fv_id reg) (fv_name reg)) (regioni s)"
  let ?c = "map (\<lambda>sett. InsertFilter i Sector (fv_id sett) (fv_name sett)) (settori s)"
  let ?d3 = "snd (run_stmts ?a ?d2)"
  have a: "fst (run_stmts ?a ?d2) = None" "search_ids ?d3 = search_ids ?d2" "users ?d3 = users ?d2"
    using insert_filters_ok [OF i2, of Category fv_id fv_name "categorie s"] by simp_all
  let ?d4 = "snd (run_stmts ?b ?d3)"
  have i3: "i \<in> search_ids ?d3" using a(2) i2 by simp
  have b: "fst (run_stmts ?b ?d3) = None" "search_ids ?d4 = search_ids ?d3" "users ?d4 = users ?d3"
    using insert_filters_ok [OF i3, of Region fv_id fv_name "regioni s"] by simp_all
  let ?d5 = "snd (run_stmts ?c ?d4)"
  have i4: "i \<in> search_ids ?d4" using b(2) i3 by simp
  have c: "fst (run_stmts ?c ?d4) = None" "users ?d5 = users ?d4"
    using insert_filters_ok [OF i4, of Sector fv_id fv_name "settori s"] by simp_all
  have "run_stmts (search_stmts c s) d = run_stmts (?a @ ?b @ ?c) ?d2"
    using assms(2) e1 by (simp add: search_stmts_def)
  also have "\<dots> = run_stmts (?b @ ?c) ?d3"
    by (rule run_stmts_append_ok [OF a(1)])
  also have "\<dots> = run_stmts ?c ?d4"
    by (rule run_stmts_append_ok [OF b(1)])
  finally have r: "run_stmts (search_stmts c s) d = run_stmts ?c ?d4" .
  show ?thesis
    using c a(3) b(3) u1 by (simp add: r)
qed

lemma searches_loop_ok:
  assumes "c \<in> set (users d)" "None \<notin> set (map s_id ss)"
  shows "fst (run_stmts (concat (map (search_stmts c) ss)) d) = None"
  using assms
proof (induction ss arbitrary: d)
  case Nil
  then show ?case by simp
next
  case (Cons s ss)
  obtain i where i: "s_id s = Some i" using Cons.prems(2) by (cases "s_id s") auto
  have ok: "fst (run_stmts (search_stmts c s) d) = None"
    and u: "users (snd (run_stmts (search_stmts c s) d)) = users d"
    using search_stmts_ok [OF Cons.prems(1) i] by simp_all
  have "c \<in> set (users (snd (run_stmts (search_stmts c s) d)))"
    using u Cons.prems(1) by simp
  from Cons.IH [OF this] Cons.prems(2) show ?case
    by (simp add: run_stmts_append_ok [OF ok])
qed

lemma deletes_ok: "fst (run_stmts (map DeleteSearch xs) d) = None"
  by (induction xs arbitrary: d) simp_all

lemma deletes_no_rows:
  "sid \<in> set xs \<Longrightarrow> no_rows_for sid (snd (run_stmts (map DeleteSearch xs) d))"
proof (induction xs arbitrary: d)
  case Nil
  then show ?case by simp
next
  case (Cons x xs)
  let ?d1 = "d\<lparr>searches := filter (\<lambda>r. r_id r \<noteq> x) (searches d),
            search_filters := filter (\<lambda>f. f_search_id f \<noteq> x) (search_filters d),
            seen_items := filter (\<lambda>p. fst p \<noteq> x) (seen_items d)\<rparr>"
  show ?case
  proof (cases "x = sid")
    case True
    have "no_rows_for sid ?d1"
      using True by (auto simp: no_rows_for_def search_ids_def)
    then have "no_rows_for sid (snd (run_stmts (map DeleteSearch xs) ?d1))"
      by (rule no_rows_run) auto
    then show ?thesis by simp
  next
    case False
    then have "sid \<in> set xs" using Cons.prems by simp
    from Cons.IH [OF this, of ?d1] show ?thesis by simp
  qed
qed

text \<open>
  Claim C9. When \<open>set_user\<close> is called with a list of searches, each with an id, that
  omits a search stored for this user, the database after the call holds no row for
  that search: not in \<^verbatim>\<open>searches\<close>, not in \<^verbatim>\<open>search_filters\<close> and not in
  \<^verbatim>\<open>seen_items\<close>. This holds also when the call fails in the seen-set inserts that
  follow the deletion.
\<close>

theorem C9_cascade_delete:
  assumes "u_searches u = Some ss" "None \<notin> set (map s_id ss)"
    and "sid \<in> set (existing_ids chat_id d)" "sid \<notin> incoming_ids ss"
  shows "sid \<notin> search_ids (snd (set_user chat_id u d))
         \<and> sid \<notin> set (map f_search_id (search_filters (snd (set_user chat_id u d))))
         \<and> sid \<notin> set (map fst (seen_items (snd (set_user chat_id u d))))"
proof -
  let ?d0 = "if chat_id \<in> set (users d) then d else d\<lparr>users := users d @ [chat_id]\<rparr>"
  let ?A = "concat (map (search_stmts chat_id) ss)"
  let ?B = "map DeleteSearch (filter (\<lambda>x. x \<notin> incoming_ids ss) (existing_ids chat_id d))"
  let ?C = "(case u_seen_ids_map u of None \<Rightarrow> []
             | Some m \<Rightarrow> concat (map (\<lambda>(sid, ids). map (InsertSeen sid) ids) m))
            @ (case u_seen_ids u of None \<Rightarrow> [] | Some ids \<Rightarrow> map (InsertLegacySeen chat_id) ids)"
  have tr: "set_user chat_id u d = run_stmts (?A @ ?B @ ?C) ?d0"
    using assms(1) by (simp add: set_user_def set_user_trace_def set_user_stmts_def)
  have "chat_id \<in> set (users ?d0)" by simp
  then have a: "fst (run_stmts ?A ?d0) = None"
    using assms(2) by (rule searches_loop_ok)
  let ?dA = "snd (run_stmts ?A ?d0)"
  let ?dB = "snd (run_stmts ?B ?dA)"
  have b: "fst (run_stmts ?B ?dA) = None" by (rule deletes_ok)
  have r: "set_user chat_id u d = run_stmts ?C ?dB"
    by (simp only: tr run_stmts_append_ok [OF a] run_stmts_append_ok [OF b])
  have "sid \<in> set (filter (\<lambda>x. x \<notin> incoming_ids ss) (existing_ids chat_id d))"
    using assms(3,4) by simp
  then have nB: "no_rows_for sid ?dB" by (rule deletes_no_rows)
  have "\<forall>s \<in> set ?C. \<forall>c t l. s \<noteq> UpsertSearch sid c t l"
    by (auto split: option.splits)
  with nB have "no_rows_for sid (snd (run_stmts ?C ?dB))" by (rule no_rows_run)
  then show ?thesis by (simp add: r no_rows_for_def)
qed

theorem C9_cascade_delete_witness:
  "u_searches example_user_deleting = Some [example_search]
   \<and> None \<notin> set (map s_id [example_search])
   \<and> ''s2'' \<in> set (existing_ids ''42'' example_db)
   \<and> ''s2'' \<notin> incoming_ids [example_search]
   \<and> ''s2'' \<notin> search_ids (snd (set_user ''42'' example_user_deleting example_db))
   \<and> ''s2'' \<notin> set (map fst (seen_items (snd (set_user ''42'' example_user_deleting example_db))))"
proof -
  have h1: "u_searches example_user_deleting = Some [example_search]"
    by (simp add: example_user_deleting_def)
  have h2: "None \<notin> set (map s_id [example_search])"
    by (simp add: example_search_def)
  have h3: "''s2'' \<in> set (existing_ids ''42'' example_db)"
    by (simp add: existing_ids_def example_db_def)
  have h4: "''s2'' \<notin> incoming_ids [example_search]"
    by (simp add: incoming_ids_def example_search_def)
  from C9_cascade_delete [OF h1 h2 h3 h4] h1 h2 h3 h4 show ?thesis by blast
qed

lemma run_stmts_failure_prefix:
  "run_stmts ss d = (Some e, d') \<Longrightarrow>
     \<exists>k < length ss. run_stmts (take k ss) d = (None, d') \<and> exec_stmt (ss ! k) d' = Inl e"
proof (induction ss arbitrary: d)
  case Nil
  then show ?case by simp
next
  case (Cons s ss)
  show ?case
  proof (cases "exec_stmt s d")
    case (Inl e')
    then have "run_stmts (take 0 (s # ss)) d = (None, d') \<and> exec_stmt ((s # ss) ! 0) d' = Inl e"
      using Cons.prems by simp
    then show ?thesis by blast
  next
    case (Inr d1)
    then have "run_stmts ss d1 = (Some e, d')" using Cons.prems by simp
    from Cons.IH [OF this] obtain k where k: "k < length ss"
      "run_stmts (take k ss) d1 = (None, d')" "exec_stmt (ss ! k) d' = Inl e" by blast
    then have "Suc k < length (s # ss) \<and> run_stmts (take (Suc k) (s # ss)) d = (None, d')
               \<and> exec_stmt ((s # ss) ! Suc k) d' = Inl e"
      using Inr by simp
    then show ?thesis by blast
  qed
qed

text \<open>
  Claim C2, as the code has it. \<open>set_user\<close> is not atomic: the connection is in
  autocommit mode and the call opens no transaction, so that a call which fails or is
  interrupted keeps the writes of the statements that ran before that point, and only
  those. What holds at every point of the call, also after a failure or an
  interruption, is referential integrity: no filter row and no seen row references a
  search that is not stored.
\<close>

theorem C2_integrity_at_every_point:
  assumes "fk_ok d"
  shows "fk_ok (snd (set_user chat_id u d))
         \<and> fk_ok (set_user_interrupted n chat_id u d)
         \<and> (case fst (set_user chat_id u d) of
              None \<Rightarrow> True
            | Some e \<Rightarrow> \<exists>k < length (set_user_trace chat_id u d).
                snd (set_user chat_id u d) = set_user_interrupted k chat_id u d
                \<and> exec_stmt (set_user_trace chat_id u d ! k) (set_user_interrupted k chat_id u d) = Inl e)"
proof -
  have a: "fk_ok (snd (set_user chat_id u d))"
    unfolding set_user_def by (rule fk_ok_run [OF assms])
  have b: "fk_ok (set_user_interrupted n chat_id u d)"
    unfolding set_user_interrupted_def by (rule fk_ok_run [OF assms])
  have c: "(case fst (set_user chat_id u d) of
              None \<Rightarrow> True
            | Some e \<Rightarrow> \<exists>k < length (set_user_trace chat_id u d).
                snd (set_user chat_id u d) = set_user_interrupted k chat_id u d
                \<and> exec_stmt (set_user_trace chat_id u d ! k) (set_user_interrupted k chat_id u d) = Inl e)"
  proof (cases "fst (set_user chat_id u d)")
    case None
    then show ?thesis by simp
  next
    case (Some e)
    then have "run_stmts (set_user_trace chat_id u d) d = (Some e, snd (set_user chat_id u d))"
      by (cases "run_stmts (set_user_trace chat_id u d) d") (simp add: set_user_def)
    from run_stmts_failure_prefix [OF this] Some show ?thesis
      by (auto simp: set_user_interrupted_def)
  qed
  from a b c show ?thesis by blast
qed

lemma example_db_fk_ok: "fk_ok example_db"
  by (simp add: fk_ok_def example_db_def search_ids_def)

lemmas example_set_user_simps =
  set_user_def set_user_interrupted_def set_user_trace_def set_user_stmts_def existing_ids_def
  incoming_ids_def example_user_deleting_def example_user_saving_def example_db_def
  example_search_def search_stmts_def search_ids_def

theorem C2_integrity_at_every_point_witness:
  "fk_ok example_db
   \<and> fst (set_user ''42'' example_user_deleting example_db) = Some IntegrityError
   \<and> fk_ok (snd (set_user ''42'' example_user_deleting example_db))
   \<and> fk_ok (set_user_interrupted 4 ''42'' example_user_deleting example_db)"
proof -
  have "fst (set_user ''42'' example_user_deleting example_db) = Some IntegrityError"
    by (simp add: example_set_user_simps)
  with C2_integrity_at_every_point [OF example_db_fk_ok, of "''42''" example_user_deleting 4]
    example_db_fk_ok
  show ?thesis by blast
qed

text \<open>
  Claim C2 as stated fails. Deleting the search \<open>s2\<close> the way the handlers do makes
  \<open>set_user\<close> fail with an integrity error in the seen-set inserts, after the search
  and its rows have been deleted: the call fails and the stored state has changed. And a
  successful call that is interrupted after its fourth statement leaves the search
  \<open>s1\<close> with one filter row, where it has five before the call and five after it: a
  state that is neither the old one nor the new one.
\<close>

theorem C2_set_user_not_atomic_counterexample:
  "fst (set_user ''42'' example_user_deleting example_db) = Some IntegrityError
   \<and> snd (set_user ''42'' example_user_deleting example_db) \<noteq> example_db
   \<and> ''s2'' \<in> search_ids example_db
   \<and> ''s2'' \<notin> search_ids (snd (set_user ''42'' example_user_deleting example_db))
   \<and> fst (set_user ''42'' example_user_saving example_db) = None
   \<and> set_user_interrupted 4 ''42'' example_user_saving example_db \<noteq> example_db
   \<and> set_user_interrupted 4 ''42'' example_user_saving example_db
       \<noteq> snd (set_user ''42'' example_user_saving example_db)
   \<and> length (filter (\<lambda>f. f_search_id f = ''s1'') (search_filters example_db)) = 5
   \<and> length (filter (\<lambda>f. f_search_id f = ''s1'')
        (search_filters (set_user_interrupted 4 ''42'' example_user_saving example_db))) = 1
   \<and> length (filter (\<lambda>f. f_search_id f = ''s1'')
        (search_filters (snd (set_user ''42'' example_user_saving example_db)))) = 5"
  by (simp add: example_set_user_simps)

section \<open>Properties of the processing of one search\<close>

lemma seen_map_get_setdefault [simp]:
  "seen_map_get (setdefault_seen_ids_map u) k = seen_map_get u k"
  by (simp add: seen_map_get_def setdefault_seen_ids_map_def split: option.splits)

lemma seen_ids_get_setdefault [simp]:
  "seen_ids_get (setdefault_seen_ids_map u) = seen_ids_get u"
  by (simp add: seen_ids_get_def setdefault_seen_ids_map_def split: option.splits)

lemma seen_map_get_set:
  "seen_map_get (seen_map_set u k v) k' = (if k' = k then v else seen_map_get u k')"
  by (simp add: seen_map_get_def seen_map_set_def update_conv' split: option.splits)

lemma seen_ids_get_seen_map_set [simp]:
  "seen_ids_get (seen_map_set u k v) = seen_ids_get u"
  by (simp add: seen_ids_get_def seen_map_set_def)

lemma seen_map_get_seen_ids_update [simp]:
  "seen_map_get (u\<lparr>u_seen_ids := x\<rparr>) k = seen_map_get u k"
  by (simp add: seen_map_get_def)

lemma set_commit: "set (commit prev ids) = set prev \<union> set ids"
  by (simp add: commit_def fromkeys_def set_fromkeys_acc)

lemma set_ids_of: "set (ids_of xs) = {i. Some i \<in> get_id ` set xs}"
  by (induction xs) (auto simp: ids_of_def get_id_def split: jstr.splits)

lemma notified_items_multi:
  "notified_items (map (\<lambda>it. (c, NewItemMulti l it)) xs) = xs"
  by (induction xs) (simp_all add: notified_items_def)

lemma notified_items_legacy:
  "notified_items (map (\<lambda>it. (c, NewItemLegacy it)) xs) = xs"
  by (induction xs) (simp_all add: notified_items_def)

lemma set_sort_merged: "sort_merged merged = Inr out \<Longrightarrow> set out = set merged"
  by (auto simp: sort_merged_def split: if_splits)

lemma aggregate_truthy:
  "list_all truthy_id (fst (aggregate search ps ([], {}, 0)))"
proof -
  have "merge_inv (merge_content (stream_of search ps) ([], {}))"
    by (rule merge_content_inv) (simp add: merge_inv_def)
  then show ?thesis
    by (simp add: aggregate_stream merge_inv_def)
qed

text \<open>The shape of a normal return of the processing of one search.\<close>

lemma process_one_search_Inr:
  assumes "process_one_search search chat_id u cfg k = Inr (changed, u', msgs)"
  shows "(\<not> changed \<and> notified_items msgs = [] \<and> (u' = u \<or> u' = setdefault_seen_ids_map u))
       \<or> (\<exists>new. new \<noteq> [] \<and> set new \<subseteq> set (fst (aggregate search (iter_payloads cfg) ([], {}, 0)))
            \<and> changed \<and> notified_items msgs = new
            \<and> (u' = seen_map_set (setdefault_seen_ids_map u) k
                       (commit (seen_map_get u k) (ids_of new))
                \<or> u' = u\<lparr>u_seen_ids := Some (commit (seen_ids_get u) (ids_of new))\<rparr>))"
proof (cases "iter_payloads cfg = []")
  case True
  then show ?thesis using assms by (auto simp: process_one_search_def notified_items_def)
next
  case False
  obtain merged merge_ids errors where
    agg: "aggregate search (iter_payloads cfg) ([], {}, 0) = (merged, merge_ids, errors)"
    by (cases "aggregate search (iter_payloads cfg) ([], {}, 0)")
  show ?thesis
  proof (cases "merged = []")
    case True
    then show ?thesis using assms False agg
      by (auto simp: process_one_search_def notified_items_def split: if_splits)
  next
    case ne: False
    then obtain sorted_items where srt: "sort_merged merged = Inr sorted_items"
      using assms False agg by (cases "sort_merged merged") (auto simp: process_one_search_def)
    have ss: "set sorted_items = set merged" by (rule set_sort_merged [OF srt])
    let ?multi = "searches_of u \<noteq> []"
    let ?u1 = "if ?multi then setdefault_seen_ids_map u else u"
    let ?seen = "if ?multi then seen_map_get ?u1 k else seen_ids_get ?u1"
    let ?new = "new_items_of ?seen sorted_items"
    have sub: "set ?new \<subseteq> set merged"
      using ss by (auto simp: new_items_of_def)
    show ?thesis
    proof (cases "?new = []")
      case True
      then show ?thesis using assms False agg ne srt
        by (auto simp: process_one_search_def Let_def notified_items_def split: if_splits)
    next
      case nn: False
      show ?thesis
      proof (cases ?multi)
        case True
        then have "changed \<and> notified_items msgs = ?new
            \<and> u' = seen_map_set (setdefault_seen_ids_map u) k (commit (seen_map_get u k) (ids_of ?new))"
          using assms False agg ne srt nn
          by (auto simp: process_one_search_def Let_def notified_items_multi notified_items_legacy)
        then show ?thesis using nn sub agg by auto
      next
        case legacy: False
        then have "changed \<and> notified_items msgs = ?new
            \<and> u' = u\<lparr>u_seen_ids := Some (commit (seen_ids_get u) (ids_of ?new))\<rparr>"
          using assms False agg ne srt nn
          by (auto simp: process_one_search_def Let_def notified_items_multi notified_items_legacy)
        then show ?thesis using nn sub agg by auto
      qed
    qed
  qed
qed

text \<open>
  Claim C10. An item whose id is absent, \<^verbatim>\<open>null\<close> or the empty string is dropped:
  whenever the processing of a search returns, the merged list holds only items with a
  non-empty id, every item announced by a message has a non-empty id, and every id
  that the call adds to a seen list, of the per-search map or of the legacy list, is a
  non-empty string.
\<close>

theorem C10_falsy_ids_dropped:
  assumes "process_one_search search chat_id u cfg k = Inr (changed, u', msgs)"
  shows "(truthy_id it \<longleftrightarrow> item_id it \<notin> {Absent, Null, Str []})
         \<and> list_all truthy_id (fst (aggregate search (iter_payloads cfg) ([], {}, 0)))
         \<and> list_all truthy_id (notified_items msgs)
         \<and> (\<forall>k'. set (seen_map_get u' k') \<subseteq> set (seen_map_get u k') \<union> {i. i \<noteq> []})
         \<and> set (seen_ids_get u') \<subseteq> set (seen_ids_get u) \<union> {i. i \<noteq> []}"
proof -
  have t: "list_all truthy_id (fst (aggregate search (iter_payloads cfg) ([], {}, 0)))"
    by (rule aggregate_truthy)
  have c: "truthy_id it \<longleftrightarrow> item_id it \<notin> {Absent, Null, Str []}"
    by (cases "item_id it") (simp_all add: truthy_id_def get_id_def)
  from process_one_search_Inr [OF assms] consider
    (unchanged) "notified_items msgs = []" "u' = u \<or> u' = setdefault_seen_ids_map u"
    | (new) new where "set new \<subseteq> set (fst (aggregate search (iter_payloads cfg) ([], {}, 0)))"
        "notified_items msgs = new"
        "u' = seen_map_set (setdefault_seen_ids_map u) k (commit (seen_map_get u k) (ids_of new))
           \<or> u' = u\<lparr>u_seen_ids := Some (commit (seen_ids_get u) (ids_of new))\<rparr>"
    by blast
  then show ?thesis
  proof cases
    case unchanged
    then show ?thesis using t c by auto
  next
    case new
    have tn: "list_all truthy_id new"
      using t new(1) by (auto simp: list_all_iff)
    then have ids: "set (ids_of new) \<subseteq> {i. i \<noteq> []}"
      by (auto simp: set_ids_of list_all_iff truthy_id_def split: option.splits)
    have m: "\<forall>k'. set (seen_map_get u' k') \<subseteq> set (seen_map_get u k') \<union> {i. i \<noteq> []}"
      using new(3) ids by (auto simp: seen_map_get_set set_commit split: if_splits)
    have l: "set (seen_ids_get u') \<subseteq> set (seen_ids_get u) \<union> {i. i \<noteq> []}"
    proof -
      have "seen_ids_get (u\<lparr>u_seen_ids := Some (commit (seen_ids_get u) (ids_of new))\<rparr>)
              = commit (seen_ids_get u) (ids_of new)"
        by (simp add: seen_ids_get_def)
      then show ?thesis using new(3) ids by (auto simp: set_commit)
    qed
    from c t tn new(2) m l show ?thesis by blast
  qed
qed

lemmas example_poll_simps =
  process_one_search_def iter_payloads_def or_none_def build_payload_def get_id_def
  sort_merged_def sort_key_of_def new_items_of_def ids_of_def commit_def fromkeys_def
  searches_of_def setdefault_seen_ids_map_def seen_map_get_def seen_map_set_def seen_ids_get_def
  label_def sid_of_def Let_def
  item_A1_def item_A2_def item_A3_def item_A2_again_def item_no_id_def item_null_id_def
  item_empty_id_def item_null_date_def

lemma example_process_one_search:
  "process_one_search example_catalog ''42'' example_user_multi example_search ''s1''
     = Inr (True,
            example_user_multi\<lparr>u_seen_ids_map := Some [(''s1'', [''A1'', ''A2'', ''A3''])]\<rparr>,
            [(''42'', NewItemMulti ''bibliotec'' item_A2), (''42'', NewItemMulti ''bibliotec'' item_A3)])"
  by (simp add: example_poll_simps example_catalog_def example_search_def example_user_multi_def)

theorem C10_falsy_ids_dropped_witness:
  "process_one_search example_catalog ''42'' example_user_multi example_search ''s1''
     = Inr (True,
            example_user_multi\<lparr>u_seen_ids_map := Some [(''s1'', [''A1'', ''A2'', ''A3''])]\<rparr>,
            [(''42'', NewItemMulti ''bibliotec'' item_A2), (''42'', NewItemMulti ''bibliotec'' item_A3)])
   \<and> \<not> truthy_id item_empty_id
   \<and> item_empty_id \<in> set (stream_of example_catalog (iter_payloads example_search))
   \<and> list_all truthy_id (notified_items
         [(''42'', NewItemMulti ''bibliotec'' item_A2), (''42'', NewItemMulti ''bibliotec'' item_A3)])"
proof -
  have a: "\<not> truthy_id item_empty_id"
    by (simp add: truthy_id_def get_id_def item_empty_id_def)
  have b: "item_empty_id \<in> set (stream_of example_catalog (iter_payloads example_search))"
    by (simp add: stream_of_def iter_payloads_def or_none_def build_payload_def
          example_catalog_def example_search_def)
  from C10_falsy_ids_dropped [OF example_process_one_search] example_process_one_search a b
  show ?thesis by blast
qed

section \<open>The sort on a null publication date\<close>

text \<open>
  Claim C6, evaluated on the code. The claim is about every merged list and asks that
  an item with a missing publication date is sorted as the empty string. The code does
  so when the key is absent: the list of \<open>A3\<close>, which has no date, and \<open>A1\<close> comes
  out as \<open>A1\<close>, \<open>A3\<close>. When the field is present and \<^verbatim>\<open>null\<close>, the key is None
  and the sort raises \<^verbatim>\<open>TypeError\<close>, in either order of the two items: there is no
  sorted output, and the processing of the search ends with that exception.
\<close>

theorem C6_null_date_sort_raises:
  "sort_merged [item_A3, item_A1] = Inr [item_A1, item_A3]
   \<and> sort_merged [item_A1, item_null_date] = Inl TypeError
   \<and> sort_merged [item_null_date, item_A1] = Inl TypeError
   \<and> process_one_search simple_catalog ''41'' null_date_user null_date_search ''s9'' = Inl TypeError"
  by (simp add: example_poll_simps simple_catalog_def null_date_user_def null_date_search_def)

section \<open>The legacy branch of the poll cycle\<close>

text \<open>
  For a user without saved searches the loop body never calls \<open>set_user\<close>: the
  store after the user is the store before it. The detection itself does not depend
  on the mode: a legacy user and a user in multi-search mode whose search expands to
  the same payloads and whose seen list is the same get the same outcome, the same
  items announced to the same chat in the same order, and the same seen list in memory.
\<close>

lemma legacy_store_unchanged:
  "searches_of u = [] \<Longrightarrow> fst (snd (process_user api search (chat_id, u) st)) = st"
  by (simp add: process_user_def split: option.splits sum.splits prod.splits)

lemma legacy_same_detection:
  assumes "searches_of ul = []" "searches_of um \<noteq> []"
    and "iter_payloads cl = iter_payloads cm"
    and "seen_ids_get ul = seen_map_get um k"
  shows "(case process_one_search search chat_id ul cl kl of
            Inl e \<Rightarrow> process_one_search search chat_id um cm k = Inl e
          | Inr (changed, ul', msgs) \<Rightarrow>
              (\<exists>um' msgs'. process_one_search search chat_id um cm k = Inr (changed, um', msgs')
                 \<and> notified_items msgs' = notified_items msgs
                 \<and> map fst msgs' = map fst msgs
                 \<and> seen_map_get um' k = seen_ids_get ul'))"
proof (cases "iter_payloads cm = []")
  case True
  then show ?thesis using assms by (simp add: process_one_search_def)
next
  case False
  obtain merged merge_ids errors where
    agg: "aggregate search (iter_payloads cm) ([], {}, 0) = (merged, merge_ids, errors)"
    by (cases "aggregate search (iter_payloads cm) ([], {}, 0)")
  show ?thesis
  proof (cases "merged = []")
    case True
    then show ?thesis using assms False agg
      by (simp add: process_one_search_def notified_items_def)
  next
    case ne: False
    show ?thesis
    proof (cases "sort_merged merged")
      case (Inl e)
      then show ?thesis using assms False agg ne
        by (simp add: process_one_search_def)
    next
      case (Inr sorted_items)
      show ?thesis
      proof (cases "new_items_of (seen_map_get um k) sorted_items = []")
        case True
        then show ?thesis using assms False agg ne Inr
          by (simp add: process_one_search_def Let_def notified_items_def)
      next
        case nn: False
        have "seen_ids_get (ul\<lparr>u_seen_ids := Some (commit (seen_map_get um k)
                (ids_of (new_items_of (seen_map_get um k) sorted_items)))\<rparr>)
              = commit (seen_map_get um k) (ids_of (new_items_of (seen_map_get um k) sorted_items))"
          by (simp add: seen_ids_get_def)
        then show ?thesis using assms False agg ne Inr nn
          by (simp add: process_one_search_def Let_def notified_items_multi notified_items_legacy
                seen_map_get_set comp_def)
      qed
    qed
  qed
qed

lemma legacy_equivalent_payloads: "iter_payloads legacy_search = iter_payloads single_search"
  by (simp add: iter_payloads_def legacy_search_def single_search_def)

text \<open>
  Claim C1, evaluated on the code. The legacy user holds the seen id \<open>A0\<close>; the
  catalog returns \<open>A1\<close> and \<open>A2\<close>. The first cycle announces both and leaves the
  store as it was: \<open>run_once\<close> drops the updated user dict of the legacy branch
  without calling \<open>set_user\<close>. The second cycle over the same catalog announces both
  again. The user with one equivalent saved search gets the same two items in the first
  cycle, the store then holds their ids, and the second cycle announces nothing.
\<close>

theorem C1_legacy_seen_not_persisted:
  "run_once json_api simple_catalog [(''42'', legacy_user)]
     = (None, [(''42'', legacy_user)],
        [(''42'', NewItemLegacy item_A2), (''42'', NewItemLegacy item_A1)])
   \<and> run_once json_api simple_catalog
         (fst (snd (run_once json_api simple_catalog [(''42'', legacy_user)])))
     = (None, [(''42'', legacy_user)],
        [(''42'', NewItemLegacy item_A2), (''42'', NewItemLegacy item_A1)])
   \<and> run_once json_api simple_catalog [(''42'', single_search_user)]
     = (None,
        [(''42'', single_search_user\<lparr>u_seen_ids_map := Some [(''s1'', [''A0'', ''A2'', ''A1''])]\<rparr>)],
        [(''42'', NewItemMulti ''bibliotec'' item_A2), (''42'', NewItemMulti ''bibliotec'' item_A1)])
   \<and> run_once json_api simple_catalog
         (fst (snd (run_once json_api simple_catalog [(''42'', single_search_user)])))
     = (None,
        [(''42'', single_search_user\<lparr>u_seen_ids_map := Some [(''s1'', [''A0'', ''A2'', ''A1''])]\<rparr>)],
        [])"
proof -
  have l: "run_once json_api simple_catalog [(''42'', legacy_user)]
     = (None, [(''42'', legacy_user)],
        [(''42'', NewItemLegacy item_A2), (''42'', NewItemLegacy item_A1)])"
    by (simp add: run_once_def json_api_def json_all_users_def json_set_user_def process_user_def
          example_poll_simps simple_catalog_def legacy_user_def legacy_search_def)
  have m: "run_once json_api simple_catalog [(''42'', single_search_user)]
     = (None,
        [(''42'', single_search_user\<lparr>u_seen_ids_map := Some [(''s1'', [''A0'', ''A2'', ''A1''])]\<rparr>)],
        [(''42'', NewItemMulti ''bibliotec'' item_A2), (''42'', NewItemMulti ''bibliotec'' item_A1)])"
    by (simp add: run_once_def json_api_def json_all_users_def json_set_user_def process_user_def
          example_poll_simps simple_catalog_def single_search_user_def single_search_def)
  have m2: "run_once json_api simple_catalog
        [(''42'', single_search_user\<lparr>u_seen_ids_map := Some [(''s1'', [''A0'', ''A2'', ''A1''])]\<rparr>)]
     = (None,
        [(''42'', single_search_user\<lparr>u_seen_ids_map := Some [(''s1'', [''A0'', ''A2'', ''A1''])]\<rparr>)],
        [])"
    by (simp add: run_once_def json_api_def json_all_users_def json_set_user_def process_user_def
          example_poll_simps simple_catalog_def single_search_user_def single_search_def)
  show ?thesis
    by (simp only: l m m2 fst_conv snd_conv simp_thms)
qed

section \<open>Failures during a poll cycle\<close>

lemma stream_of_absorb: "stream_of (absorb_failures search) ps = stream_of search ps"
  by (induction ps) (simp_all add: stream_of_def absorb_failures_def split: option.splits)

lemma no_failure_absorb: "filter (\<lambda>p. absorb_failures search p = None) ps = []"
  by (induction ps) (simp_all add: absorb_failures_def split: option.splits)

lemma aggregate_absorb:
  "aggregate (absorb_failures search) ps ([], {}, 0) =
     (fst (aggregate search ps ([], {}, 0)), fst (snd (aggregate search ps ([], {}, 0))), 0)"
  by (simp add: aggregate_stream stream_of_absorb no_failure_absorb)

lemma without_notices_append:
  "without_notices (a @ b) = without_notices a @ without_notices b"
  by (simp add: without_notices_def)

lemma without_notices_new_items:
  "without_notices (map (\<lambda>it. (c, if b then NewItemMulti l it else NewItemLegacy it)) xs)
     = map (\<lambda>it. (c, if b then NewItemMulti l it else NewItemLegacy it)) xs"
  by (induction xs) (simp_all add: without_notices_def)

lemma process_one_search_absorb:
  "process_one_search (absorb_failures search) chat_id u cfg k =
     (case process_one_search search chat_id u cfg k of
        Inl e \<Rightarrow> Inl e
      | Inr (changed, u', msgs) \<Rightarrow> Inr (changed, u', without_notices msgs))"
proof (cases "iter_payloads cfg = []")
  case True
  then show ?thesis by (simp add: process_one_search_def without_notices_def)
next
  case False
  obtain merged merge_ids errors where
    agg: "aggregate search (iter_payloads cfg) ([], {}, 0) = (merged, merge_ids, errors)"
    by (cases "aggregate search (iter_payloads cfg) ([], {}, 0)")
  have agg': "aggregate (absorb_failures search) (iter_payloads cfg) ([], {}, 0)
                = (merged, merge_ids, 0)"
    using agg by (simp add: aggregate_absorb)
  show ?thesis
  proof (cases "merged = []")
    case True
    then show ?thesis using False agg agg'
      by (simp add: process_one_search_def without_notices_def)
  next
    case ne: False
    show ?thesis
    proof (cases "sort_merged merged")
      case (Inl e)
      then show ?thesis using False agg agg' ne by (simp add: process_one_search_def)
    next
      case (Inr sorted_items)
      then show ?thesis using False agg agg' ne
        by (simp add: process_one_search_def Let_def without_notices_new_items
              without_notices_def)
    qed
  qed
qed

lemma process_searches_absorb:
  "process_searches (absorb_failures search) chat_id ss u changed =
     (case process_searches search chat_id ss u changed of
        (e, changed', u', msgs) \<Rightarrow> (e, changed', u', without_notices msgs))"
proof (induction ss arbitrary: u changed)
  case Nil
  then show ?case by (simp add: without_notices_def)
next
  case (Cons s ss)
  show ?case
  proof (cases "process_one_search search chat_id u s (sid_of s)")
    case (Inl e)
    then show ?thesis by (simp add: process_one_search_absorb without_notices_def)
  next
    case (Inr r)
    obtain c u' msgs where r: "r = (c, u', msgs)" by (cases r)
    show ?thesis
      using Inr r Cons [of u' "changed \<or> c"]
      by (simp add: process_one_search_absorb without_notices_append split: prod.splits)
  qed
qed

lemma process_user_absorb:
  "process_user api (absorb_failures search) cu st =
     (case process_user api search cu st of
        (e, st', msgs) \<Rightarrow> (e, st', without_notices msgs))"
proof -
  obtain chat_id u where cu: "cu = (chat_id, u)" by (cases cu)
  show ?thesis
  proof (cases "searches_of u = []")
    case True
    then show ?thesis
      by (simp add: cu process_user_def process_one_search_absorb without_notices_def
            split: option.splits sum.splits prod.splits)
  next
    case False
    obtain e changed u' msgs where
      r: "process_searches search chat_id (searches_of u) (setdefault_seen_ids_map u) False
            = (e, changed, u', msgs)"
      by (metis prod_cases4)
    show ?thesis
      using False r
      by (simp add: cu process_user_def process_searches_absorb split: option.splits prod.splits)
  qed
qed

lemma run_users_absorb:
  "run_users api (absorb_failures search) us st =
     (case run_users api search us st of
        (e, st', msgs) \<Rightarrow> (e, st', without_notices msgs))"
proof (induction us arbitrary: st)
  case Nil
  then show ?case by (simp add: without_notices_def)
next
  case (Cons cu us)
  obtain e st' msgs where r: "process_user api search cu st = (e, st', msgs)"
    by (cases "process_user api search cu st")
  show ?case
  proof (cases e)
    case None
    then show ?thesis using r Cons [of st']
      by (simp add: process_user_absorb without_notices_append split: prod.splits)
  next
    case (Some x)
    then show ?thesis using r
      by (simp add: process_user_absorb)
  qed
qed

lemma process_user_messages:
  "snd (snd (process_user api search cu st)) = snd (snd (process_user api search cu st'))"
  by (simp add: process_user_def split: prod.splits option.splits sum.splits)

lemma run_users_complete:
  "fst (run_users api search us st) = None \<Longrightarrow>
     snd (snd (run_users api search us st))
       = concat (map (\<lambda>cu. snd (snd (process_user api search cu st0))) us)"
proof (induction us arbitrary: st)
  case Nil
  then show ?case by simp
next
  case (Cons cu us)
  obtain e st' msgs where r: "process_user api search cu st = (e, st', msgs)"
    by (cases "process_user api search cu st")
  have e: "e = None"
    using Cons.prems r by (cases e) auto
  have rest: "fst (run_users api search us st') = None"
    using Cons.prems r e by (auto split: prod.splits)
  have m: "snd (snd (process_user api search cu st0)) = msgs"
    using process_user_messages [of api search cu st0 st] r by simp
  show ?case
    using Cons.IH [OF rest] r e m by (auto split: prod.splits)
qed

lemma run_users_raise_prefix:
  "fst (run_users api search us1 st) = Some e \<Longrightarrow>
     run_users api search (us1 @ us2) st = run_users api search us1 st"
proof (induction us1 arbitrary: st e)
  case Nil
  then show ?case by simp
next
  case (Cons cu us1)
  obtain e1 st' msgs where r: "process_user api search cu st = (e1, st', msgs)"
    by (cases "process_user api search cu st")
  show ?case
  proof (cases e1)
    case None
    then have "fst (run_users api search us1 st') = Some e"
      using Cons.prems r by (auto split: prod.splits)
    from Cons.IH [OF this] show ?thesis using r None by simp
  next
    case (Some x)
    then show ?thesis using r by simp
  qed
qed

text \<open>
  Claim C3, as the code has it. Only the failure of a catalog call is isolated: the
  exception is caught where it is raised, and the cycle goes on exactly as if the call
  had returned no items, with the same outcome, the same store and the same messages
  but for the notice that all requests of a search failed. A cycle in which no
  exception is raised processes every user: its messages are, user after user, the
  messages of the processing of each user. Any other exception raised while a user is
  processed is caught nowhere in \<open>run_once\<close>: once the cycle over some users has
  raised, the result is the same whichever users follow, so the users after the
  exception are not processed.
\<close>

theorem C3_only_catalog_failures_isolated:
  "run_once api (absorb_failures search) st
     = (case run_once api search st of (e, st', msgs) \<Rightarrow> (e, st', without_notices msgs))
   \<and> (fst (run_once api search st) = None \<longrightarrow>
        snd (snd (run_once api search st))
          = concat (map (\<lambda>cu. snd (snd (process_user api search cu st))) (api_all_users api st)))
   \<and> (\<forall>e. fst (run_users api search us1 st') = Some e \<longrightarrow>
        run_users api search (us1 @ us2) st' = run_users api search us1 st')"
proof -
  have a: "run_once api (absorb_failures search) st
     = (case run_once api search st of (e, st', msgs) \<Rightarrow> (e, st', without_notices msgs))"
    unfolding run_once_def by (rule run_users_absorb)
  have b: "fst (run_once api search st) = None \<longrightarrow>
        snd (snd (run_once api search st))
          = concat (map (\<lambda>cu. snd (snd (process_user api search cu st))) (api_all_users api st))"
    unfolding run_once_def
    using run_users_complete [of api search "api_all_users api st" st st] by simp
  have c: "\<forall>e. fst (run_users api search us1 st') = Some e \<longrightarrow>
        run_users api search (us1 @ us2) st' = run_users api search us1 st'"
    using run_users_raise_prefix [of api search us1 st' _ us2] by simp
  from a b c show ?thesis by blast
qed

lemmas example_run_simps =
  run_once_def json_api_def json_all_users_def json_set_user_def process_user_def example_poll_simps

theorem C3_only_catalog_failures_isolated_witness:
  "length (filter (\<lambda>p. example_catalog p = None) (iter_payloads example_search)) = 1
   \<and> fst (run_once json_api example_catalog
             [(''42'', example_user_multi), (''43'', example_user_multi)]) = None
   \<and> snd (snd (run_once json_api example_catalog
             [(''42'', example_user_multi), (''43'', example_user_multi)]))
       = [(''42'', NewItemMulti ''bibliotec'' item_A2), (''42'', NewItemMulti ''bibliotec'' item_A3),
          (''43'', NewItemMulti ''bibliotec'' item_A2), (''43'', NewItemMulti ''bibliotec'' item_A3)]
   \<and> snd (snd (run_once json_api example_catalog
             [(''42'', example_user_multi), (''43'', example_user_multi)]))
       = concat (map (\<lambda>cu. snd (snd (process_user json_api example_catalog cu
                        [(''42'', example_user_multi), (''43'', example_user_multi)])))
                  [(''42'', example_user_multi), (''43'', example_user_multi)])
   \<and> run_once json_api (absorb_failures example_catalog)
         [(''42'', example_user_multi), (''43'', example_user_multi)]
       = run_once json_api example_catalog
           [(''42'', example_user_multi), (''43'', example_user_multi)]
   \<and> fst (run_users json_api simple_catalog [(''41'', null_date_user)]
             [(''41'', null_date_user), (''42'', single_search_user)]) = Some TypeError
   \<and> run_users json_api simple_catalog ([(''41'', null_date_user)] @ [(''42'', single_search_user)])
         [(''41'', null_date_user), (''42'', single_search_user)]
       = run_users json_api simple_catalog [(''41'', null_date_user)]
           [(''41'', null_date_user), (''42'', single_search_user)]"
proof -
  let ?st = "[(''42'', example_user_multi), (''43'', example_user_multi)]"
  let ?st2 = "[(''41'', null_date_user), (''42'', single_search_user)]"
  have f: "length (filter (\<lambda>p. example_catalog p = None) (iter_payloads example_search)) = 1"
    by (simp add: iter_payloads_def or_none_def build_payload_def example_catalog_def
          example_search_def)
  have r: "run_once json_api example_catalog ?st
       = (None,
          [(''42'', example_user_multi\<lparr>u_seen_ids_map := Some [(''s1'', [''A1'', ''A2'', ''A3''])]\<rparr>),
           (''43'', example_user_multi\<lparr>u_seen_ids_map := Some [(''s1'', [''A1'', ''A2'', ''A3''])]\<rparr>)],
          [(''42'', NewItemMulti ''bibliotec'' item_A2), (''42'', NewItemMulti ''bibliotec'' item_A3),
           (''43'', NewItemMulti ''bibliotec'' item_A2), (''43'', NewItemMulti ''bibliotec'' item_A3)])"
    by (simp add: example_run_simps example_catalog_def example_search_def example_user_multi_def)
  have n: "fst (run_once json_api example_catalog ?st) = None"
    by (simp add: r)
  have w: "without_notices
          [(''42'', NewItemMulti ''bibliotec'' item_A2), (''42'', NewItemMulti ''bibliotec'' item_A3),
           (''43'', NewItemMulti ''bibliotec'' item_A2), (''43'', NewItemMulti ''bibliotec'' item_A3)]
        = [(''42'', NewItemMulti ''bibliotec'' item_A2), (''42'', NewItemMulti ''bibliotec'' item_A3),
           (''43'', NewItemMulti ''bibliotec'' item_A2), (''43'', NewItemMulti ''bibliotec'' item_A3)]"
    by (simp add: without_notices_def)
  have t: "fst (run_users json_api simple_catalog [(''41'', null_date_user)] ?st2) = Some TypeError"
    by (simp add: example_run_simps simple_catalog_def null_date_user_def null_date_search_def)
  note c1 = C3_only_catalog_failures_isolated
              [of json_api example_catalog ?st "[]" "[]" "[]"]
  note c2 = C3_only_catalog_failures_isolated
              [of json_api simple_catalog ?st2 "[(''41'', null_date_user)]" ?st2
                  "[(''42'', single_search_user)]"]
  have au: "api_all_users json_api ?st = ?st"
    by (simp add: json_api_def json_all_users_def)
  have "snd (snd (run_once json_api example_catalog ?st))
       = concat (map (\<lambda>cu. snd (snd (process_user json_api example_catalog cu ?st)))
                  (api_all_users json_api ?st))"
    using c1 n by (elim conjE) (erule mp)
  then have m: "snd (snd (run_once json_api example_catalog ?st))
       = concat (map (\<lambda>cu. snd (snd (process_user json_api example_catalog cu ?st))) ?st)"
    by (simp only: au)
  have ab: "run_once json_api (absorb_failures example_catalog) ?st
       = run_once json_api example_catalog ?st"
    using c1 by (simp add: r w)
  have p: "run_users json_api simple_catalog ([(''41'', null_date_user)] @ [(''42'', single_search_user)]) ?st2
       = run_users json_api simple_catalog [(''41'', null_date_user)] ?st2"
    using c2 t by blast
  have msgs: "snd (snd (run_once json_api example_catalog ?st))
       = [(''42'', NewItemMulti ''bibliotec'' item_A2), (''42'', NewItemMulti ''bibliotec'' item_A3),
          (''43'', NewItemMulti ''bibliotec'' item_A2), (''43'', NewItemMulti ''bibliotec'' item_A3)]"
    by (simp add: r)
  from f n msgs m ab t p show ?thesis by blast
qed

text \<open>
  Claim C3 as stated fails. The catalog answers the search of user \<open>41\<close> with two
  items of which one has a \<^verbatim>\<open>null\<close> publication date, so the sort raises
  \<^verbatim>\<open>TypeError\<close> while user \<open>41\<close> is processed. The cycle over the users \<open>41\<close>
  and \<open>42\<close> ends with that exception, sends no message and leaves the store as it
  was, whereas user \<open>42\<close> processed in a cycle of its own gets two messages.
\<close>

theorem C3_exception_ends_cycle_counterexample:
  "run_once json_api simple_catalog [(''41'', null_date_user), (''42'', single_search_user)]
     = (Some TypeError, [(''41'', null_date_user), (''42'', single_search_user)], [])
   \<and> snd (snd (run_once json_api simple_catalog [(''42'', single_search_user)]))
     = [(''42'', NewItemMulti ''bibliotec'' item_A2), (''42'', NewItemMulti ''bibliotec'' item_A1)]"
  by (simp add: example_run_simps simple_catalog_def null_date_user_def null_date_search_def
        single_search_user_def single_search_def)

end
